theory Spec2Isabelle
  imports
    Main
    "HOL-Library.Multiset"
    "HOL-Library.Char_ord"
    "HOL-Library.List_Lexorder"
begin

section \<open>Cycle-Autocomplete: the data model of \<^verbatim>\<open>cycleautocomplete.c\<close>\<close>

text \<open>
  The plugin keeps a process-wide list of candidates (\<^verbatim>\<open>static GList *candidates\<close>) and a
  static \<^verbatim>\<open>prev_completion\<close>. Both are threaded explicitly here.

  Conventions of the embedding:
  \<^item> a \<^verbatim>\<open>gchar *\<close> text is a \<open>string\<close>, one \<open>char\<close> per character; the GLib UTF-8
    helpers (\<^verbatim>\<open>g_utf8_get_char\<close>, \<^verbatim>\<open>g_utf8_next_char\<close>, \<^verbatim>\<open>g_utf8_strchr\<close>) then step over
    list elements;
  \<^item> a \<^verbatim>\<open>gint\<close> is an \<open>int\<close>; buffer positions handed out by the editor are in range, and the
    one place where the code multiplies and adds configuration values (the search radius)
    checks the \<^verbatim>\<open>gint\<close> range explicitly, signed overflow being undefined in C;
  \<^item> the \<^verbatim>\<open>*_COUNT\<close> enumerators only count the real values and are never stored, so the
    datatypes leave them out;
  \<^item> a result of type \<open>option\<close> is \<open>None\<close> where the C code has no defined result: a scan
    loop that never ends, the overflow just mentioned, or the first element of an empty list.
\<close>

datatype MatchType = MATCH_EXACT | MATCH_FUZZY_FORWARD

datatype CycleDirection = CYCLE_FORWARD | CYCLE_BACKWARD

text \<open>\<^verbatim>\<open>plugin_config->sort_order\<close> is a \<^verbatim>\<open>gint\<close> compared with the enumerators of \<^verbatim>\<open>SortOrder\<close>.\<close>

definition SORT_ALPHABETICALLY :: int where
  "SORT_ALPHABETICALLY = 0"

definition SORT_BY_DISTANCE :: int where
  "SORT_BY_DISTANCE = 1"

text \<open>The struct \<^verbatim>\<open>Candidate\<close>; its field \<^verbatim>\<open>text\<close> is called \<open>ctext\<close> here.\<close>

record Candidate =
  dist :: int
  ctext :: string
  match_type :: MatchType

text \<open>The struct \<^verbatim>\<open>PluginConfig\<close> without the path of the configuration file.\<close>

record PluginConfig =
  candidates_limit :: int
  distance_limit :: int
  sort_order :: int
  skip_fuzzy_if_exact :: bool
  remove_trailing_word_part :: bool

text \<open>The enumeration order of \<^verbatim>\<open>MatchType\<close>, which \<^verbatim>\<open>compare_candidates_match_type\<close> compares.\<close>

fun match_type_value :: "MatchType \<Rightarrow> int" where
  "match_type_value MATCH_EXACT = 0"
| "match_type_value MATCH_FUZZY_FORWARD = 1"


section \<open>String helpers of GLib and Geany\<close>

text \<open>\<^verbatim>\<open>utils_str_equal\<close> on two non-NULL strings.\<close>

definition utils_str_equal :: "string \<Rightarrow> string \<Rightarrow> bool" where
  "utils_str_equal a b = (a = b)"

text \<open>
  \<^verbatim>\<open>g_strcmp0\<close> on two non-NULL strings is \<^verbatim>\<open>strcmp\<close>: the first differing position decides,
  characters compared as unsigned bytes; only the sign of the result is used by the plugin.
\<close>

fun g_strcmp0 :: "string \<Rightarrow> string \<Rightarrow> int" where
  "g_strcmp0 [] [] = 0"
| "g_strcmp0 [] (y # ys) = - 1"
| "g_strcmp0 (x # xs) [] = 1"
| "g_strcmp0 (x # xs) (y # ys) =
     (if x = y then g_strcmp0 xs ys
      else if (of_char x :: nat) < of_char y then - 1 else 1)"

text \<open>
  \<^verbatim>\<open>g_utf8_strchr (p, -1, c)\<close>: the rest of \<open>p\<close> from the first occurrence of \<open>c\<close> on,
  \<open>None\<close> for NULL.
\<close>

fun g_utf8_strchr :: "string \<Rightarrow> char \<Rightarrow> string option" where
  "g_utf8_strchr [] c = None"
| "g_utf8_strchr (x # xs) c = (if x = c then Some (x # xs) else g_utf8_strchr xs c)"


section \<open>The fuzzy matcher\<close>

text \<open>
  The \<^verbatim>\<open>while (remaining && *remaining)\<close> loop of \<^verbatim>\<open>match_fuzzy_forward\<close>: \<open>baseline\<close> is the
  unread rest of the folded match, \<open>remaining\<close> the unread rest of the folded pattern.
\<close>

fun match_fuzzy_forward_loop :: "string \<Rightarrow> string \<Rightarrow> bool" where
  "match_fuzzy_forward_loop baseline [] = True"
| "match_fuzzy_forward_loop baseline (r # remaining) =
     (case g_utf8_strchr baseline r of
        None \<Rightarrow> False
      | Some found \<Rightarrow> match_fuzzy_forward_loop (tl found) remaining)"

text \<open>
  \<^verbatim>\<open>match_fuzzy_forward\<close>. GLib's \<^verbatim>\<open>g_utf8_casefold\<close> is not part of the plugin and is taken as
  a parameter.
\<close>

definition match_fuzzy_forward :: "(string \<Rightarrow> string) \<Rightarrow> string \<Rightarrow> string \<Rightarrow> bool" where
  "match_fuzzy_forward g_utf8_casefold pattern match =
     match_fuzzy_forward_loop (g_utf8_casefold match) (g_utf8_casefold pattern)"

text \<open>A case folding for ASCII text, to run the matcher on concrete words.\<close>

definition ascii_casefold :: "string \<Rightarrow> string" where
  "ascii_casefold s =
     map (\<lambda>c. if 65 \<le> (of_char c :: nat) \<and> (of_char c :: nat) \<le> 90
               then char_of (of_char c + (32 :: nat)) else c) s"


section \<open>The cycler\<close>

text \<open>
  The \<^verbatim>\<open>for (elem = candidates; elem; elem = elem->next)\<close> loop of \<^verbatim>\<open>cycle_candidates\<close>.
  \<open>first\<close> is \<^verbatim>\<open>candidates->data\<close>; \<open>passed\<close> holds the nodes already passed, nearest
  first, so that its head is \<^verbatim>\<open>elem->prev\<close>; the list walked starts at \<^verbatim>\<open>elem\<close>.
  The result is \<open>None\<close> when the loop ends without a match.
\<close>

fun cycle_candidates_loop ::
  "CycleDirection \<Rightarrow> string \<Rightarrow> Candidate \<Rightarrow> Candidate list \<Rightarrow> Candidate list \<Rightarrow> string option"
where
  "cycle_candidates_loop direction prev_completion first passed [] = None"
| "cycle_candidates_loop direction prev_completion first passed (c # after) =
     (if utils_str_equal (ctext c) prev_completion then
        (case direction of
           CYCLE_FORWARD \<Rightarrow>
             (case after of
                n # _ \<Rightarrow> Some (ctext n)
              | [] \<Rightarrow> Some (ctext first))
         | CYCLE_BACKWARD \<Rightarrow>
             (case passed of
                p # _ \<Rightarrow> Some (ctext p)
              | [] \<Rightarrow> Some (ctext (last (c # after)))))
      else cycle_candidates_loop direction prev_completion first (c # passed) after)"

text \<open>
  \<^verbatim>\<open>cycle_candidates\<close>, with the global list as third argument. On the empty list the C code
  reads \<^verbatim>\<open>candidates->data\<close> through a NULL pointer: \<open>None\<close>.
\<close>

definition cycle_candidates ::
  "CycleDirection \<Rightarrow> string option \<Rightarrow> Candidate list \<Rightarrow> string option"
where
  "cycle_candidates direction prev_completion candidates =
     (case candidates of
        [] \<Rightarrow> None
      | first # _ \<Rightarrow>
          (case prev_completion of
             None \<Rightarrow> Some (ctext first)
           | Some p \<Rightarrow>
               (case cycle_candidates_loop direction p first [] candidates of
                  Some t \<Rightarrow> Some t
                | None \<Rightarrow> Some (ctext first))))"


section \<open>The editor interface\<close>

text \<open>
  The Scintilla widget is not part of the plugin. The model takes the calls the plugin makes
  as a record of functions: \<open>sci_find_text sci cpMin cpMax lpstrText\<close> is \<^verbatim>\<open>SCI_FINDTEXT\<close> with
  the flag \<^verbatim>\<open>SCFIND_WORDSTART\<close> (the start of the match, or \<open>- 1\<close>), and the two word-boundary
  queries are called with \<^verbatim>\<open>onlyWordCharacters = TRUE\<close>.
\<close>

record ScintillaObject =
  sci_get_length :: int
  sci_get_selection_start :: int
  sci_word_start_position :: "int \<Rightarrow> int"
  sci_word_end_position :: "int \<Rightarrow> int"
  sci_get_contents_range :: "int \<Rightarrow> int \<Rightarrow> string"
  sci_find_text :: "int \<Rightarrow> int \<Rightarrow> string \<Rightarrow> int"

text \<open>The calls of \<^verbatim>\<open>insert_completion\<close> that change the editor or the status bar, in order.\<close>

datatype EditorCommand =
  CancelAutocompletePopup
| StartUndoAction
| SetTargetStart int
| SetTargetEnd int
| ReplaceTarget string
| SetCurrentPosition int
| EndUndoAction
| SetStatusbar string


section \<open>GLib lists\<close>

text \<open>
  \<^verbatim>\<open>g_list_find_custom\<close>: the first node whose data compares equal (\<open>func\<close> returns 0) to
  \<open>d\<close>, as its index; \<open>None\<close> for NULL.
\<close>

fun g_list_find_custom :: "'a list \<Rightarrow> 'b \<Rightarrow> ('a \<Rightarrow> 'b \<Rightarrow> int) \<Rightarrow> nat option" where
  "g_list_find_custom [] d func = None"
| "g_list_find_custom (x # xs) d func =
     (if func x d = 0 then Some 0 else map_option Suc (g_list_find_custom xs d func))"

text \<open>
  \<^verbatim>\<open>g_list_sort\<close> is GLib's merge sort: the list is cut in the middle, both halves are sorted,
  and the merge takes the head of the left list whenever the comparison is not positive.
\<close>

fun g_list_sort_merge :: "'a list \<Rightarrow> 'a list \<Rightarrow> ('a \<Rightarrow> 'a \<Rightarrow> int) \<Rightarrow> 'a list" where
  "g_list_sort_merge [] l2 compare_func = l2"
| "g_list_sort_merge (x # l1) [] compare_func = x # l1"
| "g_list_sort_merge (x # l1) (y # l2) compare_func =
     (if compare_func x y \<le> 0 then x # g_list_sort_merge l1 (y # l2) compare_func
      else y # g_list_sort_merge (x # l1) l2 compare_func)"

function g_list_sort :: "'a list \<Rightarrow> ('a \<Rightarrow> 'a \<Rightarrow> int) \<Rightarrow> 'a list" where
  "g_list_sort list compare_func =
     (if length list \<le> 1 then list
      else g_list_sort_merge
             (g_list_sort (take (length list div 2) list) compare_func)
             (g_list_sort (drop (length list div 2) list) compare_func)
             compare_func)"
  by pat_completeness auto
termination
  by (relation "measure (\<lambda>(list, compare_func). length list)") auto

declare g_list_sort.simps [simp del]


section \<open>Comparing candidates\<close>

definition compare_candidate_str :: "Candidate \<Rightarrow> string \<Rightarrow> int" where
  "compare_candidate_str c s = g_strcmp0 (ctext c) s"

definition compare_candidates_alpha :: "Candidate \<Rightarrow> Candidate \<Rightarrow> int" where
  "compare_candidates_alpha c0 c1 = g_strcmp0 (ctext c0) (ctext c1)"

definition compare_candidates_dist :: "Candidate \<Rightarrow> Candidate \<Rightarrow> int" where
  "compare_candidates_dist c0 c1 =
     (if dist c0 > dist c1 then 1 else 0) - (if dist c0 < dist c1 then 1 else 0)"

definition compare_candidates_match_type :: "Candidate \<Rightarrow> Candidate \<Rightarrow> int" where
  "compare_candidates_match_type c0 c1 =
     (if match_type_value (match_type c0) > match_type_value (match_type c1) then 1 else 0)
     - (if match_type_value (match_type c0) < match_type_value (match_type c1) then 1 else 0)"


section \<open>Scanning the document: \<^verbatim>\<open>find_words\<close>\<close>

type_synonym SelectFunc = "string \<Rightarrow> string \<Rightarrow> bool"

text \<open>
  An occurrence that the scan hands over to be collected: its text, its start and the
  \<^verbatim>\<open>match_type\<close> of the pass that met it.
\<close>

type_synonym occurrence = "string \<times> int \<times> MatchType"

text \<open>
  What the scan loop changes: the global list \<^verbatim>\<open>candidates\<close> (field \<open>cand_list\<close>) and the local
  \<^verbatim>\<open>num_matches\<close>. The field \<open>seen\<close> is a history variable that the C code does not have: the
  occurrences collected so far, oldest first, which are those that updated a candidate
  (line 255) or made a new one (lines 260 to 265). An occurrence that fails the selection
  function, or that is the word under the cursor, is dropped and not recorded. Nothing reads
  the field.
\<close>

record ScanState =
  cand_list :: "Candidate list"
  num_matches :: int
  seen :: "occurrence list"

definition gint_range :: "int \<Rightarrow> bool" where
  "gint_range x = (- (2 ^ 31) \<le> x \<and> x < 2 ^ 31)"

text \<open>
  Lines 208 to 219: the bounds \<open>(source_start, source_end)\<close> of the search. \<open>None\<close> when the
  radius or one of the two window ends leaves the range of \<^verbatim>\<open>gint\<close>.
\<close>

definition search_window :: "ScintillaObject \<Rightarrow> PluginConfig \<Rightarrow> int \<Rightarrow> (int \<times> int) option" where
  "search_window sci cfg pos =
     (if distance_limit cfg > 0 then
        (let radius = distance_limit cfg * 1024 in
         if gint_range radius \<and> gint_range (pos - radius) \<and> gint_range (pos + radius)
         then Some (max (pos - radius) 0, min (pos + radius) (sci_get_length sci))
         else None)
      else Some (0, sci_get_length sci))"

text \<open>
  Lines 249 to 267, for the occurrence \<open>match\<close> starting at \<open>match_start\<close>: a candidate
  with this text gets the smaller distance; otherwise a new candidate is put in front of the
  list, unless the text is the word under the cursor. \<open>mt\<close> is the local variable
  \<^verbatim>\<open>match_type\<close> of \<^verbatim>\<open>find_words\<close>.
\<close>

definition find_words_collect ::
  "string \<Rightarrow> string \<Rightarrow> int \<Rightarrow> SelectFunc option \<Rightarrow> MatchType \<Rightarrow> string \<Rightarrow> int \<Rightarrow>
   ScanState \<Rightarrow> ScanState"
where
  "find_words_collect prefix word pos select_func mt match match_start s =
     (if (case select_func of None \<Rightarrow> True | Some f \<Rightarrow> f prefix match) then
        (case g_list_find_custom (cand_list s) match compare_candidate_str of
           Some i \<Rightarrow>
             s\<lparr>cand_list := (cand_list s)
                  [i := (cand_list s ! i)\<lparr>dist := min \<bar>match_start - pos\<bar> (dist (cand_list s ! i))\<rparr>],
               seen := seen s @ [(match, match_start, mt)]\<rparr>
         | None \<Rightarrow>
             if \<not> utils_str_equal word match then
               s\<lparr>cand_list := \<lparr>dist = \<bar>match_start - pos\<bar>, ctext = match, match_type = mt\<rparr> # cand_list s,
                 num_matches := num_matches s + 1,
                 seen := seen s @ [(match, match_start, mt)]\<rparr>
             else s)
      else s)"

text \<open>
  The \<^verbatim>\<open>while\<close> loop of lines 245 to 275. Whether it ends depends on the editor's answers,
  so it is a partial function: \<open>None\<close> stands for a loop that runs forever.
\<close>

partial_function (option) find_words_loop ::
  "ScintillaObject \<Rightarrow> PluginConfig \<Rightarrow> string \<Rightarrow> string \<Rightarrow> int \<Rightarrow> SelectFunc option \<Rightarrow>
   MatchType \<Rightarrow> string \<Rightarrow> int \<Rightarrow> int \<Rightarrow> int \<Rightarrow> ScanState \<Rightarrow> ScanState option"
where
  "find_words_loop sci cfg prefix word pos select_func mt pattern source_start source_end
     match_start s =
     (if match_start \<ge> source_start \<and> match_start < source_end then
        (let match_end = sci_word_end_position sci (match_start + 1);
             match = sci_get_contents_range sci match_start match_end;
             s' = find_words_collect prefix word pos select_func mt match match_start s
         in if num_matches s' = candidates_limit cfg then Some s'
            else find_words_loop sci cfg prefix word pos select_func mt pattern
                   source_start source_end
                   (sci_find_text sci match_end source_end pattern) s')
      else Some s)"

declare find_words_loop.simps [code]

text \<open>
  \<^verbatim>\<open>find_words\<close>. \<open>candidates\<close> is the global list at the call, \<open>history\<close> the occurrences
  seen by earlier scans. The C function returns \<^verbatim>\<open>num_matches\<close> and leaves the new list in
  the global; both are in the state returned here.
\<close>

definition find_words ::
  "ScintillaObject \<Rightarrow> PluginConfig \<Rightarrow> string \<Rightarrow> string \<Rightarrow> int \<Rightarrow> SelectFunc option \<Rightarrow>
   Candidate list \<Rightarrow> occurrence list \<Rightarrow> ScanState option"
where
  "find_words sci cfg prefix word pos select_func candidates history =
     (case search_window sci cfg pos of
        None \<Rightarrow> None
      | Some (source_start, source_end) \<Rightarrow>
          (let pattern = (case select_func of Some _ \<Rightarrow> take 1 prefix | None \<Rightarrow> prefix);
               mt = (case select_func of Some _ \<Rightarrow> MATCH_FUZZY_FORWARD | None \<Rightarrow> MATCH_EXACT)
           in find_words_loop sci cfg prefix word pos select_func mt pattern
                source_start source_end
                (sci_find_text sci source_start source_end pattern)
                \<lparr>cand_list = candidates, num_matches = 0, seen = history\<rparr>))"


section \<open>Building the candidate list: \<^verbatim>\<open>find_candidates\<close>\<close>

text \<open>Lines 286 to 291: the exact pass, then the fuzzy pass unless it is skipped.\<close>

definition find_candidates_scan ::
  "(string \<Rightarrow> string) \<Rightarrow> ScintillaObject \<Rightarrow> PluginConfig \<Rightarrow> string \<Rightarrow> string \<Rightarrow> int \<Rightarrow>
   Candidate list \<Rightarrow> (Candidate list \<times> occurrence list) option"
where
  "find_candidates_scan g_utf8_casefold sci cfg prefix word pos candidates =
     (case find_words sci cfg prefix word pos None candidates [] of
        None \<Rightarrow> None
      | Some s1 \<Rightarrow>
          if num_matches s1 = 0 \<or> \<not> skip_fuzzy_if_exact cfg then
            (case find_words sci cfg prefix word pos
                    (Some (match_fuzzy_forward g_utf8_casefold)) (cand_list s1) (seen s1) of
               None \<Rightarrow> None
             | Some s2 \<Rightarrow> Some (cand_list s2, seen s2))
          else Some (cand_list s1, seen s1))"

text \<open>
  Lines 293 to 319: the two sorts and the entry for the typed text, which \<^verbatim>\<open>g_new0\<close> fills
  with zeros.
\<close>

definition find_candidates_sort ::
  "PluginConfig \<Rightarrow> string \<Rightarrow> string \<Rightarrow> Candidate list \<Rightarrow> Candidate list"
where
  "find_candidates_sort cfg prefix word candidates =
     (if candidates \<noteq> [] then
        (let candidate_sort_func =
               (if sort_order cfg = SORT_ALPHABETICALLY then compare_candidates_alpha
                else compare_candidates_dist);
             sorted1 = g_list_sort candidates candidate_sort_func;
             sorted2 = (if \<not> skip_fuzzy_if_exact cfg
                        then g_list_sort sorted1 compare_candidates_match_type
                        else sorted1);
             c = \<lparr>dist = 0,
                  ctext = (if remove_trailing_word_part cfg then word else prefix),
                  match_type = MATCH_EXACT\<rparr>
         in sorted2 @ [c])
      else candidates)"

text \<open>\<^verbatim>\<open>find_candidates\<close>: the new global list, and the history of the scans.\<close>

definition find_candidates ::
  "(string \<Rightarrow> string) \<Rightarrow> ScintillaObject \<Rightarrow> PluginConfig \<Rightarrow> string \<Rightarrow> string \<Rightarrow> int \<Rightarrow>
   Candidate list \<Rightarrow> (Candidate list \<times> occurrence list) option"
where
  "find_candidates g_utf8_casefold sci cfg prefix word pos candidates =
     (case find_candidates_scan g_utf8_casefold sci cfg prefix word pos candidates of
        None \<Rightarrow> None
      | Some (collected, history) \<Rightarrow>
          Some (find_candidates_sort cfg prefix word collected, history))"


section \<open>One keypress: \<^verbatim>\<open>insert_completion\<close>\<close>

text \<open>The state that outlives a call: the static \<^verbatim>\<open>prev_completion\<close> and the global list.\<close>

record Session =
  prev_completion :: "string option"
  candidates :: "Candidate list"

definition no_completions_message :: "string \<Rightarrow> string" where
  "no_completions_message prefix =
     ''No completions found for '' @ [CHR 0x22] @ prefix @ [CHR 0x22] @ ''.''"

text \<open>
  Lines 396 to 407: a new prefix, or no previous completion, frees both and scans again from
  the empty list.
\<close>

definition insert_completion_refresh ::
  "(string \<Rightarrow> string) \<Rightarrow> ScintillaObject \<Rightarrow> PluginConfig \<Rightarrow> string \<Rightarrow> string \<Rightarrow> int \<Rightarrow>
   Session \<Rightarrow> Session option"
where
  "insert_completion_refresh g_utf8_casefold sci cfg prefix word pos st =
     (if (case prev_completion st of None \<Rightarrow> True | Some p \<Rightarrow> \<not> utils_str_equal prefix p) then
        (case find_candidates g_utf8_casefold sci cfg prefix word pos [] of
           None \<Rightarrow> None
         | Some (built, history) \<Rightarrow> Some \<lparr>prev_completion = None, candidates = built\<rparr>)
      else Some st)"

text \<open>
  Lines 409 to 431: replace the typed text by the next candidate, or report that none exists.
  A string is the sequence of its bytes, so \<open>length completion\<close> is the \<^verbatim>\<open>strlen\<close> of line 422.
\<close>

definition insert_completion_replace ::
  "PluginConfig \<Rightarrow> CycleDirection \<Rightarrow> string \<Rightarrow> int \<Rightarrow> int \<Rightarrow> int \<Rightarrow>
   Session \<Rightarrow> (Session \<times> EditorCommand list) option"
where
  "insert_completion_replace cfg direction prefix pos start endp st =
     (if candidates st \<noteq> [] then
        (case cycle_candidates direction (prev_completion st) (candidates st) of
           None \<Rightarrow> None
         | Some completion \<Rightarrow>
             Some (st\<lparr>prev_completion := Some completion\<rparr>,
                   [CancelAutocompletePopup,
                    StartUndoAction,
                    SetTargetStart start,
                    SetTargetEnd (if remove_trailing_word_part cfg then endp else pos),
                    ReplaceTarget completion,
                    SetCurrentPosition (start + int (length completion)),
                    EndUndoAction]))
      else Some (st, [SetStatusbar (no_completions_message prefix)]))"

text \<open>
  \<^verbatim>\<open>insert_completion\<close>. \<open>doc\<close> is the editor of the current document, \<open>None\<close> when
  \<^verbatim>\<open>document_get_current\<close> returns NULL. The result is the new session and the commands sent.
\<close>

definition insert_completion ::
  "(string \<Rightarrow> string) \<Rightarrow> PluginConfig \<Rightarrow> ScintillaObject option \<Rightarrow> CycleDirection \<Rightarrow>
   Session \<Rightarrow> (Session \<times> EditorCommand list) option"
where
  "insert_completion g_utf8_casefold cfg doc direction st =
     (case doc of
        None \<Rightarrow> Some (st, [])
      | Some sci \<Rightarrow>
          (let pos = sci_get_selection_start sci;
               start = sci_word_start_position sci pos;
               endp = sci_word_end_position sci pos
           in if \<not> pos > start then Some (st, [])
              else
                (let prefix = sci_get_contents_range sci start pos;
                     word = sci_get_contents_range sci start endp
                 in case insert_completion_refresh g_utf8_casefold sci cfg prefix word pos st of
                      None \<Rightarrow> None
                    | Some st1 \<Rightarrow>
                        insert_completion_replace cfg direction prefix pos start endp st1)))"


section \<open>A plain text buffer behind the editor interface\<close>

text \<open>
  To run the model on a document: a buffer given by its text and the position of the cursor.
  Word characters are letters, digits and the underscore; the search compares characters as
  they are and accepts a match only where the character before it is not a word character.
  Scintilla, called without \<^verbatim>\<open>SCFIND_MATCHCASE\<close> as in line 240, also accepts a match that
  differs in case; the buffer stands for the editor on documents written in one case, as all
  examples here are. The theorems about the scan hold for every editor, not only this one.
\<close>

definition is_word_char :: "char \<Rightarrow> bool" where
  "is_word_char c =
     (let n = (of_char c :: nat)
      in (97 \<le> n \<and> n \<le> 122) \<or> (65 \<le> n \<and> n \<le> 90) \<or> (48 \<le> n \<and> n \<le> 57) \<or> n = 95)"

fun buffer_find_from :: "string \<Rightarrow> char option \<Rightarrow> string \<Rightarrow> nat \<Rightarrow> nat \<Rightarrow> int" where
  "buffer_find_from pattern left [] i cpMax = - 1"
| "buffer_find_from pattern left (c # rest) i cpMax =
     (if i + length pattern > cpMax then - 1
      else if take (length pattern) (c # rest) = pattern
              \<and> (case left of None \<Rightarrow> True | Some b \<Rightarrow> \<not> is_word_char b)
           then int i
           else buffer_find_from pattern (Some c) rest (Suc i) cpMax)"

definition buffer_find_text :: "string \<Rightarrow> int \<Rightarrow> int \<Rightarrow> string \<Rightarrow> int" where
  "buffer_find_text buf cpMin cpMax pattern =
     buffer_find_from pattern
       (if nat cpMin = 0 \<or> nat cpMin > length buf then None else Some (buf ! (nat cpMin - 1)))
       (drop (nat cpMin) buf) (nat cpMin) (nat cpMax)"

definition text_buffer :: "string \<Rightarrow> int \<Rightarrow> ScintillaObject" where
  "text_buffer buf cursor =
     \<lparr>sci_get_length = int (length buf),
      sci_get_selection_start = cursor,
      sci_word_start_position =
        (\<lambda>p. p - int (length (takeWhile is_word_char (rev (take (nat p) buf))))),
      sci_word_end_position =
        (\<lambda>p. p + int (length (takeWhile is_word_char (drop (nat p) buf)))),
      sci_get_contents_range = (\<lambda>a b. take (nat (b - a)) (drop (nat a) buf)),
      sci_find_text = buffer_find_text buf\<rparr>"


section \<open>What a scan has seen\<close>

text \<open>
  The distances \<open>|occurrence_start - cursor_pos|\<close> of the occurrences of the text \<open>t\<close> in a
  history, in order.
\<close>

definition occurrence_distances :: "occurrence list \<Rightarrow> int \<Rightarrow> string \<Rightarrow> int list" where
  "occurrence_distances history pos t =
     map (\<lambda>(t', ms, k). \<bar>ms - pos\<bar>) (filter (\<lambda>(t', ms, k). t' = t) history)"

text \<open>Whether the exact pass met the text \<open>t\<close>.\<close>

definition seen_in_exact_pass :: "occurrence list \<Rightarrow> string \<Rightarrow> bool" where
  "seen_in_exact_pass history t = (\<exists>(t', ms, k) \<in> set history. t' = t \<and> k = MATCH_EXACT)"

text \<open>
  The invariant of the scan loop, for a list and a history that both start empty: the texts
  of the list are distinct and none is the word under the cursor; every text seen is in the
  list; and every candidate carries the least distance of its occurrences and is exact
  precisely when the exact pass met it.
\<close>

definition scan_invariant :: "string \<Rightarrow> int \<Rightarrow> Candidate list \<Rightarrow> occurrence list \<Rightarrow> bool" where
  "scan_invariant word pos cs history =
     (distinct (map ctext cs)
      \<and> word \<notin> ctext ` set cs
      \<and> (\<forall>(t, ms, k) \<in> set history. t \<in> ctext ` set cs)
      \<and> (\<forall>c \<in> set cs.
            occurrence_distances history pos (ctext c) \<noteq> []
            \<and> dist c = Min (set (occurrence_distances history pos (ctext c)))
            \<and> (match_type c = MATCH_EXACT) = seen_in_exact_pass history (ctext c)))"

definition all_exact :: "Candidate list \<Rightarrow> bool" where
  "all_exact cs = (\<forall>c \<in> set cs. match_type c = MATCH_EXACT)"

text \<open>
  An editor whose answers let the scan advance: a search returns a negative number or a
  position at or after the start of its range, and the end of a word is not before the
  position asked about.
\<close>

definition editor_progress :: "ScintillaObject \<Rightarrow> bool" where
  "editor_progress sci =
     ((\<forall>cpMin cpMax pattern.
          sci_find_text sci cpMin cpMax pattern < 0
          \<or> cpMin \<le> sci_find_text sci cpMin cpMax pattern)
      \<and> (\<forall>p. p \<le> sci_word_end_position sci p))"

text \<open>
  Two editors that give the same answers to every call a scan of the window
  \<open>(source_start, source_end)\<close> can make: the length of the document; the search from the
  start of the window to its end; and, for every position \<open>m\<close> of the window, the end of the
  word at \<open>m + 1\<close>, the text from \<open>m\<close> to that end, and the search from that end to the end
  of the window. Nothing is said about a search with other bounds or about a word outside
  the window.
\<close>

definition same_answers_in_window ::
  "ScintillaObject \<Rightarrow> ScintillaObject \<Rightarrow> int \<Rightarrow> int \<Rightarrow> bool"
where
  "same_answers_in_window sci sci' source_start source_end =
     (sci_get_length sci' = sci_get_length sci
      \<and> (\<forall>pattern. sci_find_text sci' source_start source_end pattern
                    = sci_find_text sci source_start source_end pattern)
      \<and> (\<forall>m. source_start \<le> m \<and> m < source_end \<longrightarrow>
              sci_word_end_position sci' (m + 1) = sci_word_end_position sci (m + 1)
            \<and> sci_get_contents_range sci' m (sci_word_end_position sci (m + 1))
                = sci_get_contents_range sci m (sci_word_end_position sci (m + 1))
            \<and> (\<forall>pattern. sci_find_text sci' (sci_word_end_position sci (m + 1)) source_end pattern
                  = sci_find_text sci (sci_word_end_position sci (m + 1)) source_end pattern)))"


section \<open>Example documents\<close>

definition example_config :: PluginConfig where
  "example_config =
     \<lparr>candidates_limit = 12, distance_limit = 0, sort_order = SORT_BY_DISTANCE,
      skip_fuzzy_if_exact = True, remove_trailing_word_part = False\<rparr>"

text \<open>
  The list built for the document \<^verbatim>\<open>foobar foo food foobaz foo\<close> with the cursor at its end.
\<close>

definition example_list :: "Candidate list" where
  "example_list =
     [\<lparr>dist = 10, ctext = ''foobaz'', match_type = MATCH_EXACT\<rparr>,
      \<lparr>dist = 15, ctext = ''food'', match_type = MATCH_EXACT\<rparr>,
      \<lparr>dist = 26, ctext = ''foobar'', match_type = MATCH_EXACT\<rparr>,
      \<lparr>dist = 0, ctext = ''foo'', match_type = MATCH_EXACT\<rparr>]"

text \<open>
  The list built for the document \<^verbatim>\<open>foo food fxoxo foobar\<close> with the cursor inside the last
  word, after \<^verbatim>\<open>foo\<close>: the typed prefix is also a word of the document.
\<close>

definition repeated_list :: "Candidate list" where
  "repeated_list =
     [\<lparr>dist = 14, ctext = ''food'', match_type = MATCH_EXACT\<rparr>,
      \<lparr>dist = 18, ctext = ''foo'', match_type = MATCH_EXACT\<rparr>,
      \<lparr>dist = 0, ctext = ''foo'', match_type = MATCH_EXACT\<rparr>]"


text \<open>A configuration with a search radius and with the fuzzy pass always on.\<close>

definition near_config :: PluginConfig where
  "near_config =
     \<lparr>candidates_limit = 12, distance_limit = 1, sort_order = SORT_BY_DISTANCE,
      skip_fuzzy_if_exact = False, remove_trailing_word_part = False\<rparr>"




text \<open>The document of \<open>repeated_list\<close> and what its exact pass saw.\<close>

definition repeated_buffer :: ScintillaObject where
  "repeated_buffer = text_buffer ''foo food fxoxo foobar'' 18"

definition repeated_history :: "occurrence list" where
  "repeated_history =
     [(''foo'', 0, MATCH_EXACT), (''food'', 4, MATCH_EXACT)]"

text \<open>
  The settings of a fresh installation, lines 515 to 524 of \<^verbatim>\<open>plugin_init\<close>, and the list
  built under them for the document of \<open>repeated_list\<close>.
\<close>

definition default_config :: PluginConfig where
  "default_config =
     \<lparr>candidates_limit = 12, distance_limit = 0, sort_order = SORT_BY_DISTANCE,
      skip_fuzzy_if_exact = False, remove_trailing_word_part = False\<rparr>"

definition default_list :: "Candidate list" where
  "default_list =
     [\<lparr>dist = 14, ctext = ''food'', match_type = MATCH_EXACT\<rparr>,
      \<lparr>dist = 18, ctext = ''foo'', match_type = MATCH_EXACT\<rparr>,
      \<lparr>dist = 9, ctext = ''fxoxo'', match_type = MATCH_FUZZY_FORWARD\<rparr>,
      \<lparr>dist = 0, ctext = ''foo'', match_type = MATCH_EXACT\<rparr>]"

text \<open>
  The list built for the same document and cursor when the trailing part of the word is
  replaced too: the entry appended is the word.
\<close>

definition whole_word_list :: "Candidate list" where
  "whole_word_list =
     [\<lparr>dist = 14, ctext = ''food'', match_type = MATCH_EXACT\<rparr>,
      \<lparr>dist = 18, ctext = ''foo'', match_type = MATCH_EXACT\<rparr>,
      \<lparr>dist = 0, ctext = ''foobar'', match_type = MATCH_EXACT\<rparr>]"

text \<open>The same document after \<^verbatim>\<open>food\<close> has replaced the typed \<^verbatim>\<open>foo\<close>.\<close>

definition accepted_buffer :: ScintillaObject where
  "accepted_buffer = text_buffer ''foo food fxoxo foodbar'' 19"

text \<open>A document in which nothing else starts like the typed word.\<close>

definition lonely_buffer :: ScintillaObject where
  "lonely_buffer = text_buffer ''bar baz qux'' 11"

text \<open>
  A document longer than the smallest search radius: \<^verbatim>\<open>foofar\<close>, 1101 spaces, and
  \<^verbatim>\<open>foonear foo\<close>, with the cursor at its end, 1118. Under \<open>near_config\<close> the window is
  \<open>(94, 1118)\<close>, so \<^verbatim>\<open>foofar\<close> at position 0 is outside it; \<open>far_list\<close> and \<open>far_history\<close>
  are what the scan gives then, \<open>whole_list\<close> and \<open>whole_history\<close> what it gives under
  \<open>default_config\<close>, which has no limit.
\<close>

definition far_text :: string where
  "far_text = ''foofar'' @ replicate 1101 (CHR '' '') @ ''foonear foo''"

definition far_buffer :: ScintillaObject where
  "far_buffer = text_buffer far_text 1118"

definition far_list :: "Candidate list" where
  "far_list =
     [\<lparr>dist = 11, ctext = ''foonear'', match_type = MATCH_EXACT\<rparr>,
      \<lparr>dist = 0, ctext = ''foo'', match_type = MATCH_EXACT\<rparr>]"

definition far_history :: "occurrence list" where
  "far_history = [(''foonear'', 1107, MATCH_EXACT), (''foonear'', 1107, MATCH_FUZZY_FORWARD)]"

definition whole_list :: "Candidate list" where
  "whole_list =
     [\<lparr>dist = 11, ctext = ''foonear'', match_type = MATCH_EXACT\<rparr>,
      \<lparr>dist = 1118, ctext = ''foofar'', match_type = MATCH_EXACT\<rparr>,
      \<lparr>dist = 0, ctext = ''foo'', match_type = MATCH_EXACT\<rparr>]"

definition whole_history :: "occurrence list" where
  "whole_history =
     [(''foofar'', 0, MATCH_EXACT), (''foonear'', 1107, MATCH_EXACT),
      (''foofar'', 0, MATCH_FUZZY_FORWARD), (''foonear'', 1107, MATCH_FUZZY_FORWARD)]"

text \<open>
  The same editor, except that every search whose bounds are not those of a search inside
  the window \<open>(94, 1118)\<close> is answered with position 0, where \<^verbatim>\<open>foofar\<close> starts.
\<close>

definition far_masked :: ScintillaObject where
  "far_masked =
     far_buffer\<lparr>sci_find_text :=
       (\<lambda>cpMin cpMax pattern.
          if 94 \<le> cpMin \<and> cpMax = 1118 then sci_find_text far_buffer cpMin cpMax pattern
          else 0)\<rparr>"

text \<open>Candidates of both kinds, as a scan may leave them, to be ranked.\<close>

definition unranked_list :: "Candidate list" where
  "unranked_list =
     [\<lparr>dist = 3, ctext = ''zeta'', match_type = MATCH_FUZZY_FORWARD\<rparr>,
      \<lparr>dist = 5, ctext = ''alpha'', match_type = MATCH_EXACT\<rparr>,
      \<lparr>dist = 1, ctext = ''beta'', match_type = MATCH_FUZZY_FORWARD\<rparr>,
      \<lparr>dist = 5, ctext = ''gamma'', match_type = MATCH_EXACT\<rparr>,
      \<lparr>dist = 5, ctext = ''delta'', match_type = MATCH_EXACT\<rparr>]"


section \<open>The fuzzy matcher finds exactly the subsequences\<close>

lemma subseqs_drop_head:
  "r # rs \<in> set (subseqs b) \<Longrightarrow> rs \<in> set (subseqs b)"
  by (induction b) (auto simp: Let_def)

lemma subseqs_Cons_strchr:
  "(r # rs \<in> set (subseqs b)) =
     (case g_utf8_strchr b r of None \<Rightarrow> False | Some found \<Rightarrow> rs \<in> set (subseqs (tl found)))"
  by (induction b) (auto simp: Let_def dest: subseqs_drop_head)

lemma fuzzy_loop_subseqs:
  "match_fuzzy_forward_loop baseline remaining = (remaining \<in> set (subseqs baseline))"
proof (induction remaining arbitrary: baseline)
  case Nil
  show ?case by (induction baseline) (auto simp: Let_def)
next
  case (Cons r remaining)
  show ?case by (simp add: subseqs_Cons_strchr [of r remaining baseline] Cons.IH split: option.split)
qed


text \<open>
  Claim C4. \<^verbatim>\<open>match_fuzzy_forward\<close> answers true exactly when the folded pattern is one of the
  subsequences of the folded match: the greedy left-to-right scan, which never goes back,
  misses none. A folding that keeps the empty string empty makes the empty pattern match
  every word; \<^verbatim>\<open>br\<close> matches \<^verbatim>\<open>bracket\<close> and \<^verbatim>\<open>rb\<close> does not.
\<close>

theorem match_fuzzy_forward_subsequence:
  "(match_fuzzy_forward g_utf8_casefold seed candidate_token
      = (g_utf8_casefold seed \<in> set (subseqs (g_utf8_casefold candidate_token))))
   \<and> (g_utf8_casefold [] = [] \<longrightarrow> match_fuzzy_forward g_utf8_casefold [] candidate_token)
   \<and> match_fuzzy_forward ascii_casefold ''br'' ''bracket''
   \<and> \<not> match_fuzzy_forward ascii_casefold ''rb'' ''bracket''"
proof (intro conjI impI)
  show "match_fuzzy_forward g_utf8_casefold seed candidate_token
      = (g_utf8_casefold seed \<in> set (subseqs (g_utf8_casefold candidate_token)))"
    by (simp add: match_fuzzy_forward_def fuzzy_loop_subseqs)
next
  assume "g_utf8_casefold [] = []"
  then show "match_fuzzy_forward g_utf8_casefold [] candidate_token"
    by (simp add: match_fuzzy_forward_def)
next
  show "match_fuzzy_forward ascii_casefold ''br'' ''bracket''"
    by (simp add: match_fuzzy_forward_def ascii_casefold_def)
next
  show "\<not> match_fuzzy_forward ascii_casefold ''rb'' ''bracket''"
    by (simp add: match_fuzzy_forward_def ascii_casefold_def)
qed

theorem match_fuzzy_forward_subsequence_witness:
  "ascii_casefold [] = []
   \<and> match_fuzzy_forward ascii_casefold [] ''bracket''
   \<and> (match_fuzzy_forward ascii_casefold ''bt'' ''bracket''
        = (''bt'' \<in> set (subseqs ''bracket'')))"
  using match_fuzzy_forward_subsequence [of ascii_casefold "''bt''" "''bracket''"]
    match_fuzzy_forward_subsequence [of ascii_casefold "[]" "''bracket''"]
  by (simp add: ascii_casefold_def)


section \<open>The cycler walks the list by text\<close>

lemma cycle_loop_none:
  "\<forall>c \<in> set after. ctext c \<noteq> p \<Longrightarrow> cycle_candidates_loop d p first before after = None"
  by (induction after arbitrary: before) (auto simp: utils_str_equal_def)

lemma cycle_loop_forward:
  "\<forall>x \<in> set xs. ctext x \<noteq> p \<Longrightarrow> ctext c = p \<Longrightarrow>
   cycle_candidates_loop CYCLE_FORWARD p first before (xs @ c # ys) =
     Some (ctext (case ys of [] \<Rightarrow> first | n # _ \<Rightarrow> n))"
  by (induction xs arbitrary: before) (auto simp: utils_str_equal_def split: list.split)

lemma cycle_loop_backward:
  "\<forall>x \<in> set xs. ctext x \<noteq> p \<Longrightarrow> ctext c = p \<Longrightarrow>
   cycle_candidates_loop CYCLE_BACKWARD p first before (xs @ c # ys) =
     Some (ctext (case rev xs @ before of [] \<Rightarrow> last (c # ys) | q # _ \<Rightarrow> q))"
  by (induction xs arbitrary: before) (auto simp: utils_str_equal_def split: list.split)

lemma first_match_split:
  assumes "i < length L" "ctext (L ! i) = p" "\<forall>j<i. ctext (L ! j) \<noteq> p"
  shows "L = take i L @ (L ! i) # drop (Suc i) L \<and> (\<forall>x \<in> set (take i L). ctext x \<noteq> p)"
proof
  show "L = take i L @ (L ! i) # drop (Suc i) L"
    using assms(1) by (simp add: id_take_nth_drop)
  show "\<forall>x \<in> set (take i L). ctext x \<noteq> p"
  proof
    fix x assume "x \<in> set (take i L)"
    then obtain j where "j < i" "x = L ! j"
      using assms(1) by (auto simp: in_set_conv_nth)
    with assms(3) show "ctext x \<noteq> p" by simp
  qed
qed

lemma cycle_forward_index:
  assumes "i < length L" "ctext (L ! i) = p" "\<forall>j<i. ctext (L ! j) \<noteq> p"
  shows "cycle_candidates CYCLE_FORWARD (Some p) L = Some (ctext (L ! ((i + 1) mod length L)))"
proof -
  obtain f rest where L: "L = f # rest" using assms(1) by (cases L) auto
  let ?xs = "take i L" and ?ys = "drop (Suc i) L"
  from first_match_split[OF assms] have sp: "L = ?xs @ (L ! i) # ?ys"
    and no: "\<forall>x \<in> set ?xs. ctext x \<noteq> p" by blast+
  have "cycle_candidates_loop CYCLE_FORWARD p f [] L =
      Some (ctext (case ?ys of [] \<Rightarrow> f | n # _ \<Rightarrow> n))"
    using cycle_loop_forward[OF no assms(2), of f "[]" ?ys] sp by simp
  moreover have "(case ?ys of [] \<Rightarrow> f | n # _ \<Rightarrow> n) = L ! ((i + 1) mod length L)"
  proof (cases "Suc i < length L")
    case True
    then have "?ys = L ! Suc i # drop (Suc (Suc i)) L" by (simp add: Cons_nth_drop_Suc)
    with True show ?thesis by simp
  next
    case False
    with assms(1) have "Suc i = length L" by simp
    then show ?thesis using L by simp
  qed
  ultimately show ?thesis by (simp add: cycle_candidates_def L)
qed

lemma cycle_backward_index:
  assumes "i < length L" "ctext (L ! i) = p" "\<forall>j<i. ctext (L ! j) \<noteq> p"
  shows "cycle_candidates CYCLE_BACKWARD (Some p) L =
    Some (ctext (L ! ((i + length L - 1) mod length L)))"
proof -
  obtain f rest where L: "L = f # rest" using assms(1) by (cases L) auto
  let ?xs = "take i L" and ?ys = "drop (Suc i) L"
  from first_match_split[OF assms] have sp: "L = ?xs @ (L ! i) # ?ys"
    and no: "\<forall>x \<in> set ?xs. ctext x \<noteq> p" by blast+
  have "cycle_candidates_loop CYCLE_BACKWARD p f [] L =
      Some (ctext (case rev ?xs @ [] of [] \<Rightarrow> last ((L ! i) # ?ys) | q # _ \<Rightarrow> q))"
    using cycle_loop_backward[OF no assms(2), of f "[]" ?ys] sp by simp
  moreover have "(case rev ?xs @ [] of [] \<Rightarrow> last ((L ! i) # ?ys) | q # _ \<Rightarrow> q)
      = L ! ((i + length L - 1) mod length L)"
  proof (cases i)
    case 0
    have "last ((L ! 0) # drop (Suc 0) L) = last L" using sp 0 by simp
    also have "\<dots> = L ! (length L - 1)" using L by (simp add: last_conv_nth)
    finally show ?thesis using 0 L by simp
  next
    case (Suc k)
    then have "take i L = take k L @ [L ! k]" using assms(1) by (simp add: take_Suc_conv_app_nth)
    moreover have "(Suc k + length L - 1) mod length L = k" using Suc assms(1) by simp
    ultimately show ?thesis using Suc by simp
  qed
  ultimately show ?thesis by (simp add: cycle_candidates_def L)
qed

lemma cycle_stale:
  assumes "L \<noteq> []" "p \<notin> ctext ` set L"
  shows "cycle_candidates d (Some p) L = Some (ctext (L ! 0))"
proof -
  obtain f rest where L: "L = f # rest" using assms(1) by (cases L) auto
  have "cycle_candidates_loop d p f [] L = None"
    using assms(2) by (intro cycle_loop_none) auto
  then show ?thesis by (simp add: cycle_candidates_def L)
qed


lemma distinct_first_match:
  assumes "distinct (map ctext L)" "i < length L"
  shows "\<forall>j<i. ctext (L ! j) \<noteq> ctext (L ! i)"
proof (intro allI impI)
  fix j assume "j < i"
  with assms have "map ctext L ! j \<noteq> map ctext L ! i"
    by (auto simp: distinct_conv_nth)
  with \<open>j < i\<close> assms(2) show "ctext (L ! j) \<noteq> ctext (L ! i)" by simp
qed

lemma forward_iter:
  assumes "distinct (map ctext L)" "i < length L"
  shows "((\<lambda>prev. cycle_candidates CYCLE_FORWARD prev L) ^^ k) (Some (ctext (L ! i)))
     = Some (ctext (L ! ((i + k) mod length L)))"
proof (induction k)
  case 0
  with assms(2) show ?case by simp
next
  case (Suc k)
  let ?n = "length L"
  have pos: "0 < ?n" using assms(2) by auto
  have lt: "(i + k) mod ?n < ?n" using pos by (rule mod_less_divisor)
  have "cycle_candidates CYCLE_FORWARD (Some (ctext (L ! ((i + k) mod ?n)))) L
      = Some (ctext (L ! (((i + k) mod ?n + 1) mod ?n)))"
    by (rule cycle_forward_index [OF lt refl distinct_first_match [OF assms(1) lt]])
  moreover have "((i + k) mod ?n + 1) mod ?n = (i + Suc k) mod ?n"
    by (simp add: mod_Suc_eq)
  ultimately show ?case using Suc.IH by simp
qed

lemma backward_iter:
  assumes "distinct (map ctext L)" "i < length L"
  shows "((\<lambda>prev. cycle_candidates CYCLE_BACKWARD prev L) ^^ k) (Some (ctext (L ! i)))
     = Some (ctext (L ! ((i + k * (length L - 1)) mod length L)))"
proof (induction k)
  case 0
  with assms(2) show ?case by simp
next
  case (Suc k)
  let ?n = "length L"
  let ?m = "(i + k * (?n - 1)) mod ?n"
  have pos: "0 < ?n" using assms(2) by auto
  have lt: "?m < ?n" using pos by (rule mod_less_divisor)
  have "cycle_candidates CYCLE_BACKWARD (Some (ctext (L ! ?m))) L
      = Some (ctext (L ! ((?m + ?n - 1) mod ?n)))"
    by (rule cycle_backward_index [OF lt refl distinct_first_match [OF assms(1) lt]])
  moreover have "(?m + ?n - 1) mod ?n = (i + Suc k * (?n - 1)) mod ?n"
  proof -
    have "?m + ?n - 1 = ?m + (?n - 1)" using assms(2) by simp
    then have "(?m + ?n - 1) mod ?n = (?m + (?n - 1)) mod ?n" by simp
    also have "\<dots> = (i + k * (?n - 1) + (?n - 1)) mod ?n" by (simp add: mod_add_left_eq)
    also have "i + k * (?n - 1) + (?n - 1) = i + Suc k * (?n - 1)" by simp
    finally show ?thesis .
  qed
  ultimately show ?case using Suc.IH by simp
qed


text \<open>
  What the loop does on any non-empty list: without a previous completion the first text is
  returned; when \<open>i\<close> is the first index whose text is the previous completion, Forward
  returns the text at \<open>(i + 1) mod |L|\<close> and Backward the text at \<open>(i - 1 + |L|) mod |L|\<close>;
  a previous completion that is no text of the list gives the first text. An index behind
  the first one with the same text is never reached.
\<close>

lemma cycle_candidates_first_match:
  assumes "L \<noteq> []"
  shows "cycle_candidates direction None L = Some (ctext (L ! 0))
    \<and> (\<forall>i p. i < length L \<and> ctext (L ! i) = p \<and> (\<forall>j<i. ctext (L ! j) \<noteq> p) \<longrightarrow>
          cycle_candidates CYCLE_FORWARD (Some p) L
            = Some (ctext (L ! ((i + 1) mod length L)))
          \<and> cycle_candidates CYCLE_BACKWARD (Some p) L
            = Some (ctext (L ! ((i + length L - 1) mod length L))))
    \<and> (\<forall>p. p \<notin> ctext ` set L \<longrightarrow>
          cycle_candidates direction (Some p) L = Some (ctext (L ! 0)))"
proof (intro conjI allI impI)
  from assms obtain f rest where "L = f # rest" by (cases L) auto
  then show "cycle_candidates direction None L = Some (ctext (L ! 0))"
    by (simp add: cycle_candidates_def)
next
  fix i p
  assume "i < length L \<and> ctext (L ! i) = p \<and> (\<forall>j<i. ctext (L ! j) \<noteq> p)"
  then show "cycle_candidates CYCLE_FORWARD (Some p) L
      = Some (ctext (L ! ((i + 1) mod length L)))"
    by (intro cycle_forward_index) auto
next
  fix i p
  assume "i < length L \<and> ctext (L ! i) = p \<and> (\<forall>j<i. ctext (L ! j) \<noteq> p)"
  then show "cycle_candidates CYCLE_BACKWARD (Some p) L
      = Some (ctext (L ! ((i + length L - 1) mod length L)))"
    by (intro cycle_backward_index) auto
next
  fix p assume "p \<notin> ctext ` set L"
  with assms show "cycle_candidates direction (Some p) L = Some (ctext (L ! 0))"
    by (rule cycle_stale)
qed

text \<open>
  On a list whose texts are pairwise distinct, starting from the text of any element and
  taking each result as the next previous completion: \<open>|L|\<close> Forward steps come back to the
  start, \<open>|L|\<close> Backward steps come back to the start, and a Backward step undoes a Forward
  step.
\<close>

lemma cycle_candidates_wraparound:
  assumes "distinct (map ctext L)" "t \<in> ctext ` set L"
  shows "((\<lambda>prev. cycle_candidates CYCLE_FORWARD prev L) ^^ length L) (Some t) = Some t
    \<and> ((\<lambda>prev. cycle_candidates CYCLE_BACKWARD prev L) ^^ length L) (Some t) = Some t
    \<and> cycle_candidates CYCLE_BACKWARD (cycle_candidates CYCLE_FORWARD (Some t) L) L = Some t"
proof -
  from assms(2) obtain i where i: "i < length L" "t = ctext (L ! i)"
    by (auto simp: in_set_conv_nth)
  let ?n = "length L"
  have f: "((\<lambda>prev. cycle_candidates CYCLE_FORWARD prev L) ^^ ?n) (Some t) = Some t"
    using forward_iter [OF assms(1) i(1), of ?n] i by simp
  have "(i + ?n * (?n - 1)) mod ?n = i" using i(1) by simp
  then have b: "((\<lambda>prev. cycle_candidates CYCLE_BACKWARD prev L) ^^ ?n) (Some t) = Some t"
    using backward_iter [OF assms(1) i(1), of ?n] i by simp
  have "cycle_candidates CYCLE_BACKWARD (cycle_candidates CYCLE_FORWARD (Some t) L) L = Some t"
  proof -
    have 1: "cycle_candidates CYCLE_FORWARD (Some t) L = Some (ctext (L ! ((i + 1) mod ?n)))"
      using forward_iter [OF assms(1) i(1), of 1] i by simp
    have pos: "0 < ?n" using i(1) by auto
    have lt: "(i + 1) mod ?n < ?n" using pos by (rule mod_less_divisor)
    have 2: "cycle_candidates CYCLE_BACKWARD (Some (ctext (L ! ((i + 1) mod ?n)))) L
        = Some (ctext (L ! (((i + 1) mod ?n + 1 * (?n - 1)) mod ?n)))"
      using backward_iter [OF assms(1) lt, of 1] by simp
    have "((i + 1) mod ?n + 1 * (?n - 1)) mod ?n = (i + 1 + (?n - 1)) mod ?n"
      by (simp add: mod_add_left_eq)
    also have "i + 1 + (?n - 1) = i + ?n" using pos by simp
    also have "(i + ?n) mod ?n = i" using i(1) by simp
    finally show ?thesis using 1 2 i by simp
  qed
  with f b show ?thesis by simp
qed


section \<open>GLib's sort is the stable sort\<close>

text \<open>
  Whenever the comparison function orders by a key, \<^verbatim>\<open>g_list_sort\<close> returns what the stable
  sort \<open>sort_key\<close> of the list library returns: the list in ascending order of the key,
  entries of equal key in the order they had.
\<close>

lemma sort_key_characterisation:
  fixes f :: "'a \<Rightarrow> 'k::linorder"
  shows "sorted (map f (sort_key f xs))
    \<and> mset (sort_key f xs) = mset xs
    \<and> filter (\<lambda>y. f y = k) (sort_key f xs) = filter (\<lambda>y. f y = k) xs"
  by (simp add: sort_key_stable)

lemma g_strcmp0_le: "(g_strcmp0 a b \<le> 0) = (a \<le> b)"
  by (induction a b rule: g_strcmp0.induct) (auto simp: less_char_def)

lemma g_strcmp0_eq: "(g_strcmp0 a b = 0) = (a = b)"
  by (induction a b rule: g_strcmp0.induct) auto

lemma compare_candidates_alpha_le:
  "(compare_candidates_alpha c0 c1 \<le> 0) = (ctext c0 \<le> ctext c1)"
  by (simp add: compare_candidates_alpha_def g_strcmp0_le)

lemma compare_candidates_dist_le:
  "(compare_candidates_dist c0 c1 \<le> 0) = (dist c0 \<le> dist c1)"
  by (simp add: compare_candidates_dist_def)

lemma compare_candidates_match_type_le:
  "(compare_candidates_match_type c0 c1 \<le> 0)
     = (match_type_value (match_type c0) \<le> match_type_value (match_type c1))"
  by (simp add: compare_candidates_match_type_def)

lemma mset_g_list_sort_merge:
  "mset (g_list_sort_merge l1 l2 cmp) = mset l1 + mset l2"
  by (induction l1 l2 cmp rule: g_list_sort_merge.induct) auto

lemma set_g_list_sort_merge:
  "set (g_list_sort_merge l1 l2 cmp) = set l1 \<union> set l2"
  by (induction l1 l2 cmp rule: g_list_sort_merge.induct) auto

lemma sorted_g_list_sort_merge:
  fixes key :: "'a \<Rightarrow> 'k::linorder"
  shows "\<forall>a b. (cmp a b \<le> 0) = (key a \<le> key b) \<Longrightarrow>
    sorted (map key l1) \<Longrightarrow> sorted (map key l2) \<Longrightarrow>
    sorted (map key (g_list_sort_merge l1 l2 cmp))"
  by (induction l1 l2 cmp rule: g_list_sort_merge.induct)
     (auto simp: set_g_list_sort_merge)

lemma filter_g_list_sort_merge:
  fixes key :: "'a \<Rightarrow> 'k::linorder"
  shows "\<forall>a b. (cmp a b \<le> 0) = (key a \<le> key b) \<Longrightarrow> sorted (map key l1) \<Longrightarrow>
    filter (\<lambda>x. key x = k) (g_list_sort_merge l1 l2 cmp)
      = filter (\<lambda>x. key x = k) l1 @ filter (\<lambda>x. key x = k) l2"
proof (induction l1 l2 cmp rule: g_list_sort_merge.induct)
  case (3 x l1 y l2 compare_func)
  show ?case
  proof (cases "compare_func x y \<le> 0")
    case True
    with 3 show ?thesis by simp
  next
    case False
    with 3 have lt: "key y < key x" by auto
    have none: "filter (\<lambda>z. key z = key y) (x # l1) = []"
      using lt 3(4) by (auto simp: filter_empty_conv)
    from False 3 have ih: "filter (\<lambda>x. key x = k) (g_list_sort_merge (x # l1) l2 compare_func)
      = filter (\<lambda>x. key x = k) (x # l1) @ filter (\<lambda>x. key x = k) l2" by simp
    show ?thesis
    proof (cases "key y = k")
      case True
      with none have "filter (\<lambda>z. key z = k) (x # l1) = []" by simp
      with ih True False show ?thesis by simp
    next
      case F: False
      with ih False show ?thesis by simp
    qed
  qed
qed simp_all

lemma mset_g_list_sort: "mset (g_list_sort xs cmp) = mset xs"
proof (induction xs cmp rule: g_list_sort.induct)
  case (1 list compare_func)
  show ?case
  proof (cases "length list \<le> 1")
    case True
    then show ?thesis by (subst g_list_sort.simps) simp
  next
    case False
    have "mset (take (length list div 2) list) + mset (drop (length list div 2) list) = mset list"
      by (metis append_take_drop_id mset_append)
    with False 1 show ?thesis
      by (subst g_list_sort.simps) (simp add: mset_g_list_sort_merge)
  qed
qed

lemma sorted_g_list_sort:
  fixes key :: "'a \<Rightarrow> 'k::linorder"
  shows "\<forall>a b. (cmp a b \<le> 0) = (key a \<le> key b) \<Longrightarrow> sorted (map key (g_list_sort xs cmp))"
proof (induction xs cmp rule: g_list_sort.induct)
  case (1 list compare_func)
  show ?case
  proof (cases "length list \<le> 1")
    case True
    then have "map key list = [] \<or> (\<exists>v. map key list = [v])"
      by (cases list) auto
    then have "sorted (map key list)" by auto
    with True show ?thesis by (subst g_list_sort.simps) simp
  next
    case False
    with 1 show ?thesis
      by (subst g_list_sort.simps) (simp add: sorted_g_list_sort_merge)
  qed
qed

lemma filter_g_list_sort:
  fixes key :: "'a \<Rightarrow> 'k::linorder"
  shows "\<forall>a b. (cmp a b \<le> 0) = (key a \<le> key b) \<Longrightarrow>
    filter (\<lambda>x. key x = k) (g_list_sort xs cmp) = filter (\<lambda>x. key x = k) xs"
proof (induction xs cmp rule: g_list_sort.induct)
  case (1 list compare_func)
  show ?case
  proof (cases "length list \<le> 1")
    case True
    then show ?thesis by (subst g_list_sort.simps) simp
  next
    case False
    let ?n = "length list div 2"
    have "filter (\<lambda>x. key x = k) (take ?n list) @ filter (\<lambda>x. key x = k) (drop ?n list)
        = filter (\<lambda>x. key x = k) list"
      by (metis append_take_drop_id filter_append)
    with False 1 show ?thesis
      by (subst g_list_sort.simps)
         (simp add: filter_g_list_sort_merge sorted_g_list_sort)
  qed
qed

lemma g_list_sort_sort_key:
  fixes key :: "'a \<Rightarrow> 'k::linorder"
  assumes "\<forall>a b. (cmp a b \<le> 0) = (key a \<le> key b)"
  shows "g_list_sort xs cmp = sort_key key xs"
proof (rule sym, rule properties_for_sort_key)
  show "mset (g_list_sort xs cmp) = mset xs" by (rule mset_g_list_sort)
  show "sorted (map key (g_list_sort xs cmp))" using assms by (rule sorted_g_list_sort)
  fix k
  have "filter (\<lambda>x. key x = key k) (g_list_sort xs cmp) = filter (\<lambda>x. key x = key k) xs"
    using assms by (rule filter_g_list_sort)
  then show "filter (\<lambda>x. key k = key x) (g_list_sort xs cmp) = filter (\<lambda>x. key k = key x) xs"
    by (simp add: eq_commute)
qed

lemma sorted_map_constant:
  fixes f :: "'a \<Rightarrow> 'k::linorder"
  shows "\<forall>x \<in> set ys. f x = v \<Longrightarrow> sorted (map f ys)"
  by (induction ys) auto

lemma match_type_value_inj:
  "(match_type_value a = match_type_value b) = (a = b)"
  by (cases a; cases b) auto

lemma sort_key_match_type:
  "sort_key (\<lambda>c. match_type_value (match_type c)) xs
     = filter (\<lambda>c. match_type c = MATCH_EXACT) xs
       @ filter (\<lambda>c. match_type c = MATCH_FUZZY_FORWARD) xs"
proof (rule properties_for_sort_key)
  let ?ys = "filter (\<lambda>c. match_type c = MATCH_EXACT) xs
       @ filter (\<lambda>c. match_type c = MATCH_FUZZY_FORWARD) xs"
  have neg: "(\<lambda>c. match_type c = MATCH_FUZZY_FORWARD) = (\<lambda>c. \<not> match_type c = MATCH_EXACT)"
    by (rule ext) (metis MatchType.exhaust MatchType.distinct(1))
  show "mset ?ys = mset xs" unfolding neg by simp
  show "sorted (map (\<lambda>c. match_type_value (match_type c)) ?ys)"
    by (auto simp: sorted_append intro: sorted_map_constant [where v = 0]
        sorted_map_constant [where v = 1])
  fix k
  show "filter (\<lambda>x. match_type_value (match_type k) = match_type_value (match_type x)) ?ys
      = filter (\<lambda>x. match_type_value (match_type k) = match_type_value (match_type x)) xs"
  proof -
    have "filter (\<lambda>x. match_type x = match_type k) ?ys
        = filter (\<lambda>x. match_type x = match_type k) xs"
      by (cases "match_type k") simp_all
    then show ?thesis
      by (simp add: match_type_value_inj eq_commute [of "match_type k"])
  qed
qed



text \<open>
  Claim C3. \<^verbatim>\<open>find_candidates\<close> first sorts the collected candidates stably by text when the
  order is alphabetical, and by distance otherwise; unless \<^verbatim>\<open>skip_fuzzy_if_exact\<close> is set, it
  then puts the exact candidates before the fuzzy ones, each group in the order of the first
  sort; the entry for the typed text is in neither sort and comes last. Nothing collected
  means no such entry: the list stays empty.
\<close>

theorem find_candidates_sort_ranking:
  "find_candidates_sort cfg prefix word collected =
    (if collected = [] then []
     else
       (let step1 = (if sort_order cfg = SORT_ALPHABETICALLY then sort_key ctext collected
                     else sort_key dist collected);
            step2 = (if skip_fuzzy_if_exact cfg then step1
                     else filter (\<lambda>c. match_type c = MATCH_EXACT) step1
                          @ filter (\<lambda>c. match_type c = MATCH_FUZZY_FORWARD) step1)
        in step2 @ [\<lparr>dist = 0,
                      ctext = (if remove_trailing_word_part cfg then word else prefix),
                      match_type = MATCH_EXACT\<rparr>]))"
proof -
  have alpha: "g_list_sort xs compare_candidates_alpha = sort_key ctext xs" for xs
    by (rule g_list_sort_sort_key) (simp add: compare_candidates_alpha_le)
  have dist: "g_list_sort xs compare_candidates_dist = sort_key dist xs" for xs
    by (rule g_list_sort_sort_key) (simp add: compare_candidates_dist_le)
  have kind: "g_list_sort xs compare_candidates_match_type
      = filter (\<lambda>c. match_type c = MATCH_EXACT) xs
        @ filter (\<lambda>c. match_type c = MATCH_FUZZY_FORWARD) xs" for xs :: "Candidate list"
    using g_list_sort_sort_key [of compare_candidates_match_type
        "\<lambda>c. match_type_value (match_type c)" xs]
    by (simp add: compare_candidates_match_type_le sort_key_match_type)
  show ?thesis
    by (simp add: find_candidates_sort_def Let_def alpha dist kind)
qed

theorem find_candidates_sort_ranking_witness:
  "find_candidates_sort near_config ''foo'' ''foobar'' unranked_list =
       [\<lparr>dist = 5, ctext = ''alpha'', match_type = MATCH_EXACT\<rparr>,
        \<lparr>dist = 5, ctext = ''gamma'', match_type = MATCH_EXACT\<rparr>,
        \<lparr>dist = 5, ctext = ''delta'', match_type = MATCH_EXACT\<rparr>,
        \<lparr>dist = 1, ctext = ''beta'', match_type = MATCH_FUZZY_FORWARD\<rparr>,
        \<lparr>dist = 3, ctext = ''zeta'', match_type = MATCH_FUZZY_FORWARD\<rparr>,
        \<lparr>dist = 0, ctext = ''foo'', match_type = MATCH_EXACT\<rparr>]
   \<and> find_candidates_sort
         (near_config\<lparr>sort_order := SORT_ALPHABETICALLY, skip_fuzzy_if_exact := True\<rparr>)
         ''foo'' ''foobar'' unranked_list =
       [\<lparr>dist = 5, ctext = ''alpha'', match_type = MATCH_EXACT\<rparr>,
        \<lparr>dist = 1, ctext = ''beta'', match_type = MATCH_FUZZY_FORWARD\<rparr>,
        \<lparr>dist = 5, ctext = ''delta'', match_type = MATCH_EXACT\<rparr>,
        \<lparr>dist = 5, ctext = ''gamma'', match_type = MATCH_EXACT\<rparr>,
        \<lparr>dist = 3, ctext = ''zeta'', match_type = MATCH_FUZZY_FORWARD\<rparr>,
        \<lparr>dist = 0, ctext = ''foo'', match_type = MATCH_EXACT\<rparr>]
   \<and> find_candidates_sort near_config ''foo'' ''foobar'' [] = []"
  using find_candidates_sort_ranking [of near_config "''foo''" "''foobar''" unranked_list]
    find_candidates_sort_ranking
      [of "near_config\<lparr>sort_order := SORT_ALPHABETICALLY, skip_fuzzy_if_exact := True\<rparr>"
        "''foo''" "''foobar''" unranked_list]
    find_candidates_sort_ranking [of near_config "''foo''" "''foobar''" "[]"]
  by (simp add: unranked_list_def near_config_def SORT_ALPHABETICALLY_def
        SORT_BY_DISTANCE_def Let_def)


section \<open>The scan loop keeps its invariant\<close>

lemma find_words_loop_invariant:
  assumes run: "find_words_loop sci cfg prefix word pos select_func mt pattern
      source_start source_end match_start s = Some s'"
    and init: "I s"
    and step: "\<And>m s. source_start \<le> m \<Longrightarrow> m < source_end \<Longrightarrow> I s \<Longrightarrow>
      I (find_words_collect prefix word pos select_func mt
           (sci_get_contents_range sci m (sci_word_end_position sci (m + 1))) m s)"
  shows "I s'"
proof -
  define P where "P = (\<lambda>sci' (cfg' :: PluginConfig) prefix' word' pos' select_func' mt'
      (pattern' :: string) source_start' source_end' (m :: int) s0 s1.
      sci' = sci \<and> prefix' = prefix \<and> word' = word \<and> pos' = pos \<and> select_func' = select_func
      \<and> mt' = mt \<and> source_start' = source_start \<and> source_end' = source_end
      \<longrightarrow> I s0 \<longrightarrow> I s1)"
  have "P sci cfg prefix word pos select_func mt pattern source_start source_end match_start s s'"
  proof (rule find_words_loop.raw_induct [where P = P, OF _ run])
    fix f sci' cfg' prefix' word' pos' select_func' mt' pattern' source_start' source_end'
      and m :: int and s0 s1
    assume ih: "\<And>sci cfg prefix word pos select_func mt pattern source_start source_end
        match_start s y.
        f sci cfg prefix word pos select_func mt pattern source_start source_end match_start s
          = Some y \<Longrightarrow>
        P sci cfg prefix word pos select_func mt pattern source_start source_end match_start s y"
      and body: "(if source_start' \<le> m \<and> m < source_end'
        then let match_end = sci_word_end_position sci' (m + 1);
                 match = sci_get_contents_range sci' m match_end;
                 s' = find_words_collect prefix' word' pos' select_func' mt' match m s0
             in if num_matches s' = candidates_limit cfg' then Some s'
                else f sci' cfg' prefix' word' pos' select_func' mt' pattern'
                       source_start' source_end'
                       (sci_find_text sci' match_end source_end' pattern') s'
        else Some s0) = Some s1"
    show "P sci' cfg' prefix' word' pos' select_func' mt' pattern' source_start' source_end' m s0 s1"
      unfolding P_def
    proof (intro impI, elim conjE)
      assume eqs: "sci' = sci" "prefix' = prefix" "word' = word" "pos' = pos"
        "select_func' = select_func" "mt' = mt" "source_start' = source_start"
        "source_end' = source_end" and I0: "I s0"
      show "I s1"
      proof (cases "source_start \<le> m \<and> m < source_end")
        case False
        with body eqs I0 show ?thesis by auto
      next
        case True
        let ?s = "find_words_collect prefix word pos select_func mt
           (sci_get_contents_range sci m (sci_word_end_position sci (m + 1))) m s0"
        have Is: "I ?s" using True I0 by (intro step) auto
        show ?thesis
        proof (cases "num_matches ?s = candidates_limit cfg'")
          case T: True
          with body eqs True have "s1 = ?s" by (simp add: Let_def)
          with Is show ?thesis by simp
        next
          case F: False
          with body eqs True have "f sci cfg' prefix word pos select_func mt pattern'
              source_start source_end
              (sci_find_text sci (sci_word_end_position sci (m + 1)) source_end pattern') ?s
              = Some s1" by (simp add: Let_def)
          from ih [OF this] Is show ?thesis by (simp add: P_def)
        qed
      qed
    qed
  qed
  with init show ?thesis by (simp add: P_def)
qed

lemma g_list_find_custom_None:
  "(g_list_find_custom xs m compare_candidate_str = None) = (m \<notin> ctext ` set xs)"
  by (induction xs) (auto simp: compare_candidate_str_def g_strcmp0_eq)

lemma g_list_find_custom_Some:
  "g_list_find_custom xs m compare_candidate_str = Some i \<Longrightarrow>
     i < length xs \<and> ctext (xs ! i) = m"
  by (induction xs arbitrary: i)
     (auto simp: compare_candidate_str_def g_strcmp0_eq split: if_splits)



lemma occurrence_distances_append:
  "occurrence_distances (history @ [(m, ms, k)]) pos t =
     occurrence_distances history pos t @ (if m = t then [\<bar>ms - pos\<bar>] else [])"
  by (simp add: occurrence_distances_def)

lemma seen_in_exact_pass_append:
  "seen_in_exact_pass (history @ [(m, ms, k)]) t =
     (seen_in_exact_pass history t \<or> (m = t \<and> k = MATCH_EXACT))"
  by (auto simp: seen_in_exact_pass_def)

lemma occurrence_distances_empty:
  "(occurrence_distances history pos t = []) = (\<forall>(t', ms, k) \<in> set history. t' \<noteq> t)"
  by (auto simp: occurrence_distances_def filter_empty_conv)

lemma Min_snoc:
  "xs \<noteq> [] \<Longrightarrow> Min (set (xs @ [d :: int])) = min d (Min (set xs))"
  by (simp add: Min_insert)

lemma scan_invariant_update:
  fixes ms :: int
  assumes inv: "scan_invariant word pos cs history"
    and ex: "mt = MATCH_EXACT \<longrightarrow> all_exact cs"
    and found: "g_list_find_custom cs m compare_candidate_str = Some i"
  defines "cs' \<equiv> cs[i := (cs ! i)\<lparr>dist := min \<bar>ms - pos\<bar> (dist (cs ! i))\<rparr>]"
  shows "scan_invariant word pos cs' (history @ [(m, ms, mt)])
    \<and> (mt = MATCH_EXACT \<longrightarrow> all_exact cs')"
proof -
  let ?c' = "(cs ! i)\<lparr>dist := min \<bar>ms - pos\<bar> (dist (cs ! i))\<rparr>"
  let ?log' = "history @ [(m, ms, mt)]"
  from g_list_find_custom_Some [OF found] have i: "i < length cs" and ti: "ctext (cs ! i) = m"
    by auto
  have texts: "map ctext cs' = map ctext cs"
    using i by (simp add: cs'_def map_update list_update_same_conv)
  then have tset: "ctext ` set cs' = ctext ` set cs"
    by (metis set_map)
  have d: "distinct (map ctext cs)" and w: "word \<notin> ctext ` set cs"
    and cover: "\<forall>(t, ms, k) \<in> set history. t \<in> ctext ` set cs"
    and each: "\<forall>c \<in> set cs. occurrence_distances history pos (ctext c) \<noteq> []
            \<and> dist c = Min (set (occurrence_distances history pos (ctext c)))
            \<and> (match_type c = MATCH_EXACT) = seen_in_exact_pass history (ctext c)"
    using inv by (auto simp: scan_invariant_def)
  have mem: "m \<in> ctext ` set cs" using i ti by (metis imageI nth_mem)
  have each': "occurrence_distances ?log' pos (ctext c) \<noteq> []
      \<and> dist c = Min (set (occurrence_distances ?log' pos (ctext c)))
      \<and> (match_type c = MATCH_EXACT) = seen_in_exact_pass ?log' (ctext c)"
    if c: "c \<in> set cs'" for c
  proof -
    from c obtain j where j: "j < length cs" "c = cs' ! j"
      by (auto simp: in_set_conv_nth cs'_def)
    show ?thesis
    proof (cases "j = i")
      case True
      then have c': "c = ?c'" using j i by (simp add: cs'_def)
      have old: "occurrence_distances history pos m \<noteq> []"
        "dist (cs ! i) = Min (set (occurrence_distances history pos m))"
        "(match_type (cs ! i) = MATCH_EXACT) = seen_in_exact_pass history m"
        using each i ti by (metis nth_mem)+
      have "mt = MATCH_EXACT \<Longrightarrow> match_type (cs ! i) = MATCH_EXACT"
        using ex i by (auto simp: all_exact_def)
      with old show ?thesis
        by (auto simp: c' ti occurrence_distances_append seen_in_exact_pass_append Min_snoc)
    next
      case False
      then have cj: "c = cs ! j" using j by (simp add: cs'_def)
      have "ctext (cs ! j) \<noteq> ctext (cs ! i)"
        using d False j(1) i by (auto simp: distinct_conv_nth)
      then have ne: "m \<noteq> ctext c" using cj ti by simp
      have "c \<in> set cs" using cj j(1) by simp
      with each ne show ?thesis
        by (simp add: occurrence_distances_append seen_in_exact_pass_append)
    qed
  qed
  have "scan_invariant word pos cs' ?log'"
    unfolding scan_invariant_def
    using d w cover mem each' by (auto simp: texts tset)
  moreover have "mt = MATCH_EXACT \<longrightarrow> all_exact cs'"
  proof
    assume "mt = MATCH_EXACT"
    with ex have a: "\<forall>c \<in> set cs. match_type c = MATCH_EXACT" by (simp add: all_exact_def)
    have "match_type c = MATCH_EXACT" if "c \<in> set cs'" for c
    proof -
      from that obtain j where j: "j < length cs" "c = cs' ! j"
        by (auto simp: in_set_conv_nth cs'_def)
      then show ?thesis using a i by (cases "j = i") (auto simp: cs'_def)
    qed
    then show "all_exact cs'" by (simp add: all_exact_def)
  qed
  ultimately show ?thesis by simp
qed

lemma scan_invariant_insert:
  fixes ms :: int
  assumes inv: "scan_invariant word pos cs history"
    and ex: "mt = MATCH_EXACT \<longrightarrow> all_exact cs"
    and nf: "g_list_find_custom cs m compare_candidate_str = None"
    and nw: "m \<noteq> word"
  defines "cs' \<equiv> \<lparr>dist = \<bar>ms - pos\<bar>, ctext = m, match_type = mt\<rparr> # cs"
  shows "scan_invariant word pos cs' (history @ [(m, ms, mt)])
    \<and> (mt = MATCH_EXACT \<longrightarrow> all_exact cs')"
proof -
  let ?log' = "history @ [(m, ms, mt)]"
  have fresh: "m \<notin> ctext ` set cs" using nf by (simp add: g_list_find_custom_None)
  have d: "distinct (map ctext cs)" and w: "word \<notin> ctext ` set cs"
    and cover: "\<forall>(t, ms, k) \<in> set history. t \<in> ctext ` set cs"
    and each: "\<forall>c \<in> set cs. occurrence_distances history pos (ctext c) \<noteq> []
            \<and> dist c = Min (set (occurrence_distances history pos (ctext c)))
            \<and> (match_type c = MATCH_EXACT) = seen_in_exact_pass history (ctext c)"
    using inv by (auto simp: scan_invariant_def)
  have unseen: "\<forall>(t', ms, k) \<in> set history. t' \<noteq> m"
    using cover fresh by auto
  then have none: "occurrence_distances history pos m = []" "\<not> seen_in_exact_pass history m"
    by (auto simp: occurrence_distances_empty seen_in_exact_pass_def)
  have old: "occurrence_distances ?log' pos (ctext c) \<noteq> []
      \<and> dist c = Min (set (occurrence_distances ?log' pos (ctext c)))
      \<and> (match_type c = MATCH_EXACT) = seen_in_exact_pass ?log' (ctext c)"
    if "c \<in> set cs" for c
  proof -
    from that fresh have "m \<noteq> ctext c" by auto
    with each that show ?thesis
      by (simp add: occurrence_distances_append seen_in_exact_pass_append)
  qed
  have "scan_invariant word pos cs' ?log'"
    unfolding scan_invariant_def cs'_def
    using d w cover fresh nw none old
    by (auto simp: occurrence_distances_append seen_in_exact_pass_append)
  moreover have "mt = MATCH_EXACT \<longrightarrow> all_exact cs'"
    using ex by (auto simp: all_exact_def cs'_def)
  ultimately show ?thesis by simp
qed

lemma scan_invariant_collect:
  assumes "scan_invariant word pos (cand_list s) (seen s)
    \<and> (mt = MATCH_EXACT \<longrightarrow> all_exact (cand_list s))"
  shows "scan_invariant word pos
      (cand_list (find_words_collect prefix word pos select_func mt m ms s))
      (seen (find_words_collect prefix word pos select_func mt m ms s))
    \<and> (mt = MATCH_EXACT \<longrightarrow>
         all_exact (cand_list (find_words_collect prefix word pos select_func mt m ms s)))"
  using assms scan_invariant_update [of word pos "cand_list s" "seen s" mt m _ ms]
    scan_invariant_insert [of word pos "cand_list s" "seen s" mt m ms]
  by (auto simp: find_words_collect_def utils_str_equal_def split: option.splits)

lemma find_words_loop_scan_invariant:
  assumes "find_words_loop sci cfg prefix word pos select_func mt pattern
      source_start source_end match_start s = Some s'"
    and "scan_invariant word pos (cand_list s) (seen s)"
    and "mt = MATCH_EXACT \<longrightarrow> all_exact (cand_list s)"
  shows "scan_invariant word pos (cand_list s') (seen s')
    \<and> (mt = MATCH_EXACT \<longrightarrow> all_exact (cand_list s'))"
  by (rule find_words_loop_invariant [OF assms(1),
        where I = "\<lambda>s. scan_invariant word pos (cand_list s) (seen s)
          \<and> (mt = MATCH_EXACT \<longrightarrow> all_exact (cand_list s))"])
     (use assms(2,3) in \<open>auto intro: scan_invariant_collect [THEN conjunct1]
        scan_invariant_collect [THEN conjunct2, rule_format]\<close>)

lemma seen_find_words_collect:
  "set (seen (find_words_collect prefix word pos select_func mt m ms s))
     \<subseteq> insert (m, ms, mt) (set (seen s))"
  by (auto simp: find_words_collect_def split: option.splits if_splits)

lemma find_words_loop_window:
  assumes "find_words_loop sci cfg prefix word pos select_func mt pattern
      source_start source_end match_start s = Some s'"
    and "\<forall>(t, ms, k) \<in> set (seen s). source_start \<le> ms \<and> ms < source_end"
  shows "\<forall>(t, ms, k) \<in> set (seen s'). source_start \<le> ms \<and> ms < source_end"
proof (rule find_words_loop_invariant [OF assms(1),
        where I = "\<lambda>s. \<forall>(t, ms, k) \<in> set (seen s). source_start \<le> ms \<and> ms < source_end"])
  show "\<forall>(t, ms, k) \<in> set (seen s). source_start \<le> ms \<and> ms < source_end" by (rule assms(2))
next
  fix m and s :: ScanState
  assume m: "source_start \<le> m" "m < source_end"
    and old: "\<forall>(t, ms, k) \<in> set (seen s). source_start \<le> ms \<and> ms < source_end"
  let ?match = "sci_get_contents_range sci m (sci_word_end_position sci (m + 1))"
  show "\<forall>(t, ms, k) \<in> set (seen (find_words_collect prefix word pos select_func mt ?match m s)).
      source_start \<le> ms \<and> ms < source_end"
    using seen_find_words_collect [of prefix word pos select_func mt ?match m s] m old
    by auto
qed

lemma find_words_scan_invariant:
  assumes run: "find_words sci cfg prefix word pos select_func cs history = Some s'"
    and inv: "scan_invariant word pos cs history"
    and ex: "select_func = None \<longrightarrow> all_exact cs"
  shows "scan_invariant word pos (cand_list s') (seen s')
    \<and> (select_func = None \<longrightarrow> all_exact (cand_list s'))"
proof -
  from run obtain source_start source_end where
    loop: "find_words_loop sci cfg prefix word pos select_func
      (case select_func of Some _ \<Rightarrow> MATCH_FUZZY_FORWARD | None \<Rightarrow> MATCH_EXACT)
      (case select_func of Some _ \<Rightarrow> take 1 prefix | None \<Rightarrow> prefix)
      source_start source_end
      (sci_find_text sci source_start source_end
         (case select_func of Some _ \<Rightarrow> take 1 prefix | None \<Rightarrow> prefix))
      \<lparr>cand_list = cs, num_matches = 0, seen = history\<rparr> = Some s'"
    by (auto simp: find_words_def Let_def split: option.splits)
  show ?thesis
    using find_words_loop_scan_invariant [OF loop] inv ex
    by (cases select_func) auto
qed

lemma find_words_window:
  assumes run: "find_words sci cfg prefix word pos select_func cs history = Some s'"
  shows "\<exists>source_start source_end. search_window sci cfg pos = Some (source_start, source_end)
    \<and> ((\<forall>(t, ms, k) \<in> set history. source_start \<le> ms \<and> ms < source_end) \<longrightarrow>
        (\<forall>(t, ms, k) \<in> set (seen s'). source_start \<le> ms \<and> ms < source_end))"
proof -
  from run obtain source_start source_end where
    w: "search_window sci cfg pos = Some (source_start, source_end)" and
    loop: "find_words_loop sci cfg prefix word pos select_func
      (case select_func of Some _ \<Rightarrow> MATCH_FUZZY_FORWARD | None \<Rightarrow> MATCH_EXACT)
      (case select_func of Some _ \<Rightarrow> take 1 prefix | None \<Rightarrow> prefix)
      source_start source_end
      (sci_find_text sci source_start source_end
         (case select_func of Some _ \<Rightarrow> take 1 prefix | None \<Rightarrow> prefix))
      \<lparr>cand_list = cs, num_matches = 0, seen = history\<rparr> = Some s'"
    by (auto simp: find_words_def Let_def split: option.splits)
  show ?thesis
    using find_words_loop_window [OF loop] w by auto
qed

lemma scan_invariant_empty: "scan_invariant word pos [] []"
  by (simp add: scan_invariant_def)

lemma find_candidates_scan_invariant:
  assumes "find_candidates_scan g_utf8_casefold sci cfg prefix word pos [] = Some (collected, history)"
  shows "scan_invariant word pos collected history"
proof -
  from assms obtain s1 where
    s1: "find_words sci cfg prefix word pos None [] [] = Some s1"
    by (auto simp: find_candidates_scan_def split: option.splits)
  have i1: "scan_invariant word pos (cand_list s1) (seen s1)"
    using find_words_scan_invariant [OF s1 scan_invariant_empty] by (simp add: all_exact_def)
  show ?thesis
  proof (cases "num_matches s1 = 0 \<or> \<not> skip_fuzzy_if_exact cfg")
    case False
    with assms s1 i1 show ?thesis by (auto simp: find_candidates_scan_def)
  next
    case True
    with assms s1 obtain s2 where
      s2: "find_words sci cfg prefix word pos (Some (match_fuzzy_forward g_utf8_casefold))
            (cand_list s1) (seen s1) = Some s2"
      and r: "collected = cand_list s2" "history = seen s2"
      by (auto simp: find_candidates_scan_def split: option.splits)
    show ?thesis using find_words_scan_invariant [OF s2 i1] r by simp
  qed
qed

lemma find_candidates_scan_window:
  assumes "find_candidates_scan g_utf8_casefold sci cfg prefix word pos [] = Some (collected, history)"
  shows "\<exists>source_start source_end. search_window sci cfg pos = Some (source_start, source_end)
    \<and> (\<forall>(t, ms, k) \<in> set history. source_start \<le> ms \<and> ms < source_end)"
proof -
  from assms obtain s1 where
    s1: "find_words sci cfg prefix word pos None [] [] = Some s1"
    by (auto simp: find_candidates_scan_def split: option.splits)
  from find_words_window [OF s1] obtain source_start source_end where
    w: "search_window sci cfg pos = Some (source_start, source_end)"
    and i1: "\<forall>(t, ms, k) \<in> set (seen s1). source_start \<le> ms \<and> ms < source_end"
    by auto
  show ?thesis
  proof (cases "num_matches s1 = 0 \<or> \<not> skip_fuzzy_if_exact cfg")
    case False
    with assms s1 w i1 show ?thesis by (auto simp: find_candidates_scan_def)
  next
    case True
    with assms s1 obtain s2 where
      s2: "find_words sci cfg prefix word pos (Some (match_fuzzy_forward g_utf8_casefold))
            (cand_list s1) (seen s1) = Some s2"
      and r: "collected = cand_list s2" "history = seen s2"
      by (auto simp: find_candidates_scan_def split: option.splits)
    from find_words_window [OF s2] w i1
    have "\<forall>(t, ms, k) \<in> set (seen s2). source_start \<le> ms \<and> ms < source_end" by auto
    with w r show ?thesis by auto
  qed
qed

lemma find_candidates_sort_shape:
  "find_candidates_sort cfg prefix word [] = []"
  "collected \<noteq> [] \<Longrightarrow> \<exists>ranked.
     find_candidates_sort cfg prefix word collected =
       ranked @ [\<lparr>dist = 0, ctext = (if remove_trailing_word_part cfg then word else prefix),
                  match_type = MATCH_EXACT\<rparr>]
     \<and> mset ranked = mset collected"
  by (auto simp: find_candidates_sort_def Let_def mset_g_list_sort)


lemma find_candidates_parts:
  assumes "find_candidates g_utf8_casefold sci cfg prefix word pos [] = Some (built, history)"
  shows "\<exists>collected.
      find_candidates_scan g_utf8_casefold sci cfg prefix word pos [] = Some (collected, history)
    \<and> built = find_candidates_sort cfg prefix word collected"
  using assms by (auto simp: find_candidates_def split: option.splits)

lemma distinct_map_mset:
  "mset xs = mset ys \<Longrightarrow> distinct (map f ys) \<Longrightarrow> distinct (map f xs)"
  using mset_eq_imp_distinct_iff [of "map f xs" "map f ys"] by simp


text \<open>The example documents, run through the model.\<close>

lemma example_list_built:
  "map_option fst
     (find_candidates ascii_casefold (text_buffer ''foobar foo food foobaz foo'' 26)
        example_config ''foo'' ''foo'' 26 [])
     = Some example_list"
  by code_simp

lemma repeated_list_built:
  "find_candidates ascii_casefold repeated_buffer example_config ''foo'' ''foobar'' 18 []
     = Some (repeated_list, repeated_history)"
  by code_simp


lemma lonely_scan:
  "find_candidates_scan ascii_casefold lonely_buffer example_config ''qux'' ''qux'' 11 []
     = Some ([], [])"
  by code_simp

text \<open>
  Claim C5. In a list that \<^verbatim>\<open>find_candidates\<close> has built from the empty list, the entries
  before the last have pairwise distinct texts and none is the word under the cursor; a list
  that is not empty ends with the entry for the typed text; and the typed text repeats an
  earlier text only when it is the prefix, the prefix is not the whole word, and the
  trailing part of the word is kept.
\<close>

theorem find_candidates_distinct:
  assumes run: "find_candidates g_utf8_casefold sci cfg prefix word pos [] = Some (built, history)"
  shows "distinct (map ctext (butlast built))
    \<and> word \<notin> ctext ` set (butlast built)
    \<and> (built \<noteq> [] \<longrightarrow>
          last built = \<lparr>dist = 0,
                         ctext = (if remove_trailing_word_part cfg then word else prefix),
                         match_type = MATCH_EXACT\<rparr>
        \<and> (ctext (last built) \<in> ctext ` set (butlast built) \<longrightarrow>
             \<not> remove_trailing_word_part cfg \<and> ctext (last built) = prefix
             \<and> prefix \<noteq> word))"
proof (cases "built = []")
  case True
  then show ?thesis by simp
next
  case ne: False
  from find_candidates_parts [OF run] obtain collected where
    scan: "find_candidates_scan g_utf8_casefold sci cfg prefix word pos [] = Some (collected, history)"
    and built: "built = find_candidates_sort cfg prefix word collected" by blast
  have inv: "scan_invariant word pos collected history"
    by (rule find_candidates_scan_invariant [OF scan])
  have "collected \<noteq> []" using ne built find_candidates_sort_shape(1) by auto
  from find_candidates_sort_shape(2) [OF this, of cfg prefix word] built
  obtain ranked where
    shape: "built = ranked @ [\<lparr>dist = 0,
        ctext = (if remove_trailing_word_part cfg then word else prefix),
        match_type = MATCH_EXACT\<rparr>]"
    and perm: "mset ranked = mset collected" by auto
  have "distinct (map ctext collected)" using inv by (simp add: scan_invariant_def)
  with perm have d: "distinct (map ctext ranked)" by (rule distinct_map_mset)
  have s: "set ranked = set collected" using perm by (rule mset_eq_setD)
  then have w: "word \<notin> ctext ` set ranked" using inv by (simp add: scan_invariant_def)
  show ?thesis using d w by (auto simp: shape)
qed

theorem find_candidates_distinct_witness:
  "find_candidates ascii_casefold repeated_buffer example_config ''foo'' ''foobar'' 18 []
     = Some (repeated_list, repeated_history)
   \<and> repeated_list \<noteq> []
   \<and> distinct (map ctext (butlast repeated_list))
   \<and> last repeated_list = \<lparr>dist = 0, ctext = ''foo'', match_type = MATCH_EXACT\<rparr>
   \<and> ''foobar'' \<notin> ctext ` set (butlast repeated_list)
   \<and> ctext (last repeated_list) \<in> ctext ` set (butlast repeated_list)
   \<and> \<not> remove_trailing_word_part example_config"
proof -
  have ne: "repeated_list \<noteq> []" by (simp add: repeated_list_def)
  have dup: "ctext (last repeated_list) \<in> ctext ` set (butlast repeated_list)"
    by (simp add: repeated_list_def)
  from find_candidates_distinct [OF repeated_list_built] dup ne repeated_list_built
  show ?thesis by (simp add: example_config_def)
qed




lemma search_window_cases:
  assumes "search_window sci cfg pos = Some (source_start, source_end)"
  shows "(distance_limit cfg \<le> 0 \<longrightarrow> source_start = 0 \<and> source_end = sci_get_length sci)
    \<and> (distance_limit cfg > 0 \<longrightarrow>
          source_start = max (pos - distance_limit cfg * 1024) 0
        \<and> source_end = min (pos + distance_limit cfg * 1024) (sci_get_length sci))"
  using assms by (auto simp: search_window_def Let_def split: if_splits)


section \<open>One keypress\<close>

lemma cycle_candidates_loop_mem:
  "cycle_candidates_loop direction p first passed after = Some t \<Longrightarrow>
     t \<in> ctext ` (insert first (set passed \<union> set after))"
proof (induction after arbitrary: passed)
  case Nil
  then show ?case by simp
next
  case (Cons c after)
  show ?case
  proof (cases "utils_str_equal (ctext c) p")
    case False
    with Cons.prems have "cycle_candidates_loop direction p first (c # passed) after = Some t"
      by simp
    from Cons.IH [OF this] show ?thesis by auto
  next
    case True
    have "last (c # after) \<in> set (c # after)" by (rule last_in_set) simp
    with True Cons.prems show ?thesis
      by (cases direction; cases after; cases passed) (auto split: if_splits)
  qed
qed

lemma cycle_candidates_mem:
  assumes "L \<noteq> []"
  shows "\<exists>t. cycle_candidates direction prev L = Some t \<and> t \<in> ctext ` set L"
proof -
  from assms obtain f rest where L: "L = f # rest" by (cases L) auto
  show ?thesis
  proof (cases prev)
    case None
    then show ?thesis by (simp add: cycle_candidates_def L)
  next
    case (Some p)
    show ?thesis
    proof (cases "cycle_candidates_loop direction p f [] L")
      case None
      with Some show ?thesis by (simp add: cycle_candidates_def L)
    next
      case (Some t)
      from cycle_candidates_loop_mem [OF this] have "t \<in> ctext ` set L" by (auto simp: L)
      with Some \<open>prev = Some p\<close> show ?thesis by (simp add: cycle_candidates_def L)
    qed
  qed
qed


text \<open>
  Claim C10. On a non-empty list the cycler returns the text of one of its entries; the
  replacement step of \<^verbatim>\<open>insert_completion\<close> sends that text to the editor and returns the
  session with the same list and only \<^verbatim>\<open>prev_completion\<close> changed.
\<close>

theorem cycle_step_frame:
  assumes "candidates st \<noteq> []"
  shows "\<exists>t. cycle_candidates direction (prev_completion st) (candidates st) = Some t
    \<and> t \<in> ctext ` set (candidates st)
    \<and> insert_completion_replace cfg direction prefix pos start endp st
        = Some (\<lparr>prev_completion = Some t, candidates = candidates st\<rparr>,
                [CancelAutocompletePopup,
                 StartUndoAction,
                 SetTargetStart start,
                 SetTargetEnd (if remove_trailing_word_part cfg then endp else pos),
                 ReplaceTarget t,
                 SetCurrentPosition (start + int (length t)),
                 EndUndoAction])"
proof -
  from cycle_candidates_mem [OF assms, of direction "prev_completion st"] obtain t where
    t: "cycle_candidates direction (prev_completion st) (candidates st) = Some t"
      "t \<in> ctext ` set (candidates st)" by blast
  then show ?thesis using assms by (auto simp: insert_completion_replace_def)
qed


theorem cycle_step_frame_witness:
  "candidates \<lparr>prev_completion = Some ''food'', candidates = example_list\<rparr> \<noteq> []
   \<and> ''foobar'' \<in> ctext ` set example_list
   \<and> insert_completion_replace example_config CYCLE_FORWARD ''food'' 19 15 22
        \<lparr>prev_completion = Some ''food'', candidates = example_list\<rparr>
       = Some (\<lparr>prev_completion = Some ''foobar'', candidates = example_list\<rparr>,
               [CancelAutocompletePopup, StartUndoAction, SetTargetStart 15, SetTargetEnd 19,
                ReplaceTarget ''foobar'', SetCurrentPosition 21, EndUndoAction])"
proof -
  let ?st = "\<lparr>prev_completion = Some ''food'', candidates = example_list\<rparr>"
  have ne: "candidates ?st \<noteq> []" by (simp add: example_list_def)
  have c: "cycle_candidates CYCLE_FORWARD (prev_completion ?st) (candidates ?st) = Some ''foobar''"
    by (simp add: example_list_def cycle_candidates_def utils_str_equal_def)
  from cycle_step_frame [OF ne, of CYCLE_FORWARD example_config "''food''" 19 15 22] c ne
  show ?thesis by (auto simp: example_config_def)
qed

lemma insert_completion_unfold:
  assumes "pos = sci_get_selection_start sci"
    and "start = sci_word_start_position sci pos"
    and "endp = sci_word_end_position sci pos"
    and "prefix = sci_get_contents_range sci start pos"
    and "word = sci_get_contents_range sci start endp"
    and "start < pos"
  shows "insert_completion g_utf8_casefold cfg (Some sci) direction st =
    (case insert_completion_refresh g_utf8_casefold sci cfg prefix word pos st of
       None \<Rightarrow> None
     | Some st1 \<Rightarrow> insert_completion_replace cfg direction prefix pos start endp st1)"
  by (simp add: insert_completion_def Let_def assms(1-5) [symmetric] assms(6)
        split: option.split)


text \<open>
  The two guards at the start of \<^verbatim>\<open>insert_completion\<close>: without a document, or without a
  word character before the cursor, the call changes nothing and sends nothing.
\<close>

lemma insert_completion_declines:
  "insert_completion g_utf8_casefold cfg None direction st = Some (st, [])"
  "\<not> sci_word_start_position sci (sci_get_selection_start sci) < sci_get_selection_start sci
   \<Longrightarrow> insert_completion g_utf8_casefold cfg (Some sci) direction st = Some (st, [])"
  by (simp_all add: insert_completion_def Let_def)

text \<open>
  Claim C7. With a word before the cursor: when there is no previous completion or the
  prefix differs from it, the call behaves as on the empty session, scans from the empty list
  and cycles from no previous completion, so the session afterwards holds the list just
  built and its first text; otherwise nothing is scanned, the call always returns, and the
  list is the one it was.
\<close>

theorem insert_completion_session:
  assumes "pos = sci_get_selection_start sci"
    and "start = sci_word_start_position sci pos"
    and "endp = sci_word_end_position sci pos"
    and "prefix = sci_get_contents_range sci start pos"
    and "word = sci_get_contents_range sci start endp"
    and "start < pos"
  shows "(prev_completion st \<noteq> Some prefix \<longrightarrow>
            insert_completion g_utf8_casefold cfg (Some sci) direction st
              = insert_completion g_utf8_casefold cfg (Some sci) direction
                  \<lparr>prev_completion = None, candidates = []\<rparr>
          \<and> insert_completion g_utf8_casefold cfg (Some sci) direction st
              = (case find_candidates g_utf8_casefold sci cfg prefix word pos [] of
                   None \<Rightarrow> None
                 | Some (built, history) \<Rightarrow>
                     insert_completion_replace cfg direction prefix pos start endp
                       \<lparr>prev_completion = None, candidates = built\<rparr>)
          \<and> (\<forall>st' commands.
                insert_completion g_utf8_casefold cfg (Some sci) direction st
                  = Some (st', commands) \<longrightarrow>
                (\<exists>history. find_candidates g_utf8_casefold sci cfg prefix word pos []
                              = Some (candidates st', history))
                \<and> prev_completion st'
                    = (if candidates st' = [] then None
                       else Some (ctext (candidates st' ! 0)))))
    \<and> (prev_completion st = Some prefix \<longrightarrow>
          insert_completion g_utf8_casefold cfg (Some sci) direction st
            = insert_completion_replace cfg direction prefix pos start endp st
        \<and> (\<exists>st' commands.
              insert_completion g_utf8_casefold cfg (Some sci) direction st
                = Some (st', commands)
              \<and> candidates st' = candidates st
              \<and> (candidates st \<noteq> [] \<longrightarrow>
                   prev_completion st'
                     = cycle_candidates direction (Some prefix) (candidates st))))"
proof (intro conjI impI)
  note unfold = insert_completion_unfold [OF assms, of g_utf8_casefold cfg direction]
  {
    assume new: "prev_completion st \<noteq> Some prefix"
    then have refresh: "insert_completion_refresh g_utf8_casefold sci cfg prefix word pos st
        = (case find_candidates g_utf8_casefold sci cfg prefix word pos [] of
             None \<Rightarrow> None
           | Some (built, history) \<Rightarrow> Some \<lparr>prev_completion = None, candidates = built\<rparr>)"
      by (cases "prev_completion st") (auto simp: insert_completion_refresh_def utils_str_equal_def)
    have refresh0: "insert_completion_refresh g_utf8_casefold sci cfg prefix word pos
          \<lparr>prev_completion = None, candidates = []\<rparr>
        = (case find_candidates g_utf8_casefold sci cfg prefix word pos [] of
             None \<Rightarrow> None
           | Some (built, history) \<Rightarrow> Some \<lparr>prev_completion = None, candidates = built\<rparr>)"
      by (simp add: insert_completion_refresh_def)
    show "insert_completion g_utf8_casefold cfg (Some sci) direction st
        = insert_completion g_utf8_casefold cfg (Some sci) direction
            \<lparr>prev_completion = None, candidates = []\<rparr>"
      by (simp add: unfold refresh refresh0)
    show eq: "insert_completion g_utf8_casefold cfg (Some sci) direction st
        = (case find_candidates g_utf8_casefold sci cfg prefix word pos [] of
             None \<Rightarrow> None
           | Some (built, history) \<Rightarrow>
               insert_completion_replace cfg direction prefix pos start endp
                 \<lparr>prev_completion = None, candidates = built\<rparr>)"
      by (simp add: unfold refresh split: option.splits)
    show "\<forall>st' commands.
        insert_completion g_utf8_casefold cfg (Some sci) direction st = Some (st', commands) \<longrightarrow>
        (\<exists>history. find_candidates g_utf8_casefold sci cfg prefix word pos []
                      = Some (candidates st', history))
        \<and> prev_completion st'
            = (if candidates st' = [] then None else Some (ctext (candidates st' ! 0)))"
    proof (intro allI impI)
      fix st' commands
      assume "insert_completion g_utf8_casefold cfg (Some sci) direction st = Some (st', commands)"
      with eq obtain built history where
        f: "find_candidates g_utf8_casefold sci cfg prefix word pos [] = Some (built, history)"
        and r: "insert_completion_replace cfg direction prefix pos start endp
            \<lparr>prev_completion = None, candidates = built\<rparr> = Some (st', commands)"
        by (auto split: option.splits)
      show "(\<exists>history. find_candidates g_utf8_casefold sci cfg prefix word pos []
                      = Some (candidates st', history))
        \<and> prev_completion st'
            = (if candidates st' = [] then None else Some (ctext (candidates st' ! 0)))"
      proof (cases built)
        case Nil
        with r f show ?thesis by (auto simp: insert_completion_replace_def)
      next
        case (Cons c cs)
        with r f show ?thesis
          by (auto simp: insert_completion_replace_def cycle_candidates_def)
      qed
    qed
  }
  {
    assume old: "prev_completion st = Some prefix"
    then have refresh: "insert_completion_refresh g_utf8_casefold sci cfg prefix word pos st
        = Some st"
      by (simp add: insert_completion_refresh_def utils_str_equal_def)
    show eq: "insert_completion g_utf8_casefold cfg (Some sci) direction st
        = insert_completion_replace cfg direction prefix pos start endp st"
      by (simp add: unfold refresh)
    show "\<exists>st' commands.
        insert_completion g_utf8_casefold cfg (Some sci) direction st = Some (st', commands)
        \<and> candidates st' = candidates st
        \<and> (candidates st \<noteq> [] \<longrightarrow>
             prev_completion st' = cycle_candidates direction (Some prefix) (candidates st))"
    proof (cases "candidates st = []")
      case True
      then show ?thesis by (simp add: eq insert_completion_replace_def)
    next
      case False
      from cycle_candidates_mem [OF this, of direction "prev_completion st"] obtain t where
        "cycle_candidates direction (prev_completion st) (candidates st) = Some t" by blast
      with False old show ?thesis by (simp add: eq insert_completion_replace_def)
    qed
  }
qed


theorem insert_completion_session_witness:
  "18 = sci_get_selection_start repeated_buffer
   \<and> 15 = sci_word_start_position repeated_buffer 18
   \<and> 21 = sci_word_end_position repeated_buffer 18
   \<and> ''foo'' = sci_get_contents_range repeated_buffer 15 18
   \<and> ''foobar'' = sci_get_contents_range repeated_buffer 15 21
   \<and> prev_completion \<lparr>prev_completion = Some ''bar'', candidates = example_list\<rparr> \<noteq> Some ''foo''
   \<and> insert_completion ascii_casefold example_config (Some repeated_buffer) CYCLE_FORWARD
        \<lparr>prev_completion = Some ''bar'', candidates = example_list\<rparr>
       = Some (\<lparr>prev_completion = Some ''food'', candidates = repeated_list\<rparr>,
               [CancelAutocompletePopup, StartUndoAction, SetTargetStart 15, SetTargetEnd 18,
                ReplaceTarget ''food'', SetCurrentPosition 19, EndUndoAction])
   \<and> 19 = sci_get_selection_start accepted_buffer
   \<and> 15 = sci_word_start_position accepted_buffer 19
   \<and> 22 = sci_word_end_position accepted_buffer 19
   \<and> ''food'' = sci_get_contents_range accepted_buffer 15 19
   \<and> ''foodbar'' = sci_get_contents_range accepted_buffer 15 22
   \<and> insert_completion ascii_casefold example_config (Some accepted_buffer) CYCLE_FORWARD
        \<lparr>prev_completion = Some ''food'', candidates = repeated_list\<rparr>
       = Some (\<lparr>prev_completion = Some ''foo'', candidates = repeated_list\<rparr>,
               [CancelAutocompletePopup, StartUndoAction, SetTargetStart 15, SetTargetEnd 19,
                ReplaceTarget ''foo'', SetCurrentPosition 18, EndUndoAction])"
proof -
  have a: "18 = sci_get_selection_start repeated_buffer"
    "15 = sci_word_start_position repeated_buffer 18"
    "21 = sci_word_end_position repeated_buffer 18"
    "''foo'' = sci_get_contents_range repeated_buffer 15 18"
    "''foobar'' = sci_get_contents_range repeated_buffer 15 21"
    "(15 :: int) < 18"
    by (simp_all add: repeated_buffer_def text_buffer_def is_word_char_def)
  have b: "19 = sci_get_selection_start accepted_buffer"
    "15 = sci_word_start_position accepted_buffer 19"
    "22 = sci_word_end_position accepted_buffer 19"
    "''food'' = sci_get_contents_range accepted_buffer 15 19"
    "''foodbar'' = sci_get_contents_range accepted_buffer 15 22"
    "(15 :: int) < 19"
    by (simp_all add: accepted_buffer_def text_buffer_def is_word_char_def)
  let ?old = "\<lparr>prev_completion = Some ''bar'', candidates = example_list\<rparr>"
  let ?cont = "\<lparr>prev_completion = Some ''food'', candidates = repeated_list\<rparr>"
  have new: "prev_completion ?old \<noteq> Some ''foo''" by simp
  have "insert_completion ascii_casefold example_config (Some repeated_buffer) CYCLE_FORWARD ?old
      = (case find_candidates ascii_casefold repeated_buffer example_config ''foo'' ''foobar'' 18 []
         of None \<Rightarrow> None
          | Some (built, history) \<Rightarrow>
              insert_completion_replace example_config CYCLE_FORWARD ''foo'' 18 15 21
                \<lparr>prev_completion = None, candidates = built\<rparr>)"
    using insert_completion_session [OF a, of ?old ascii_casefold example_config CYCLE_FORWARD] new
    by blast
  then have "insert_completion ascii_casefold example_config (Some repeated_buffer)
      CYCLE_FORWARD ?old
      = insert_completion_replace example_config CYCLE_FORWARD ''foo'' 18 15 21
          \<lparr>prev_completion = None, candidates = repeated_list\<rparr>"
    by (simp add: repeated_list_built)
  then have 1: "insert_completion ascii_casefold example_config (Some repeated_buffer)
      CYCLE_FORWARD ?old
      = Some (\<lparr>prev_completion = Some ''food'', candidates = repeated_list\<rparr>,
               [CancelAutocompletePopup, StartUndoAction, SetTargetStart 15, SetTargetEnd 18,
                ReplaceTarget ''food'', SetCurrentPosition 19, EndUndoAction])"
    by (simp add: insert_completion_replace_def cycle_candidates_def repeated_list_def
          example_config_def)
  have "insert_completion ascii_casefold example_config (Some accepted_buffer) CYCLE_FORWARD ?cont
      = insert_completion_replace example_config CYCLE_FORWARD ''food'' 19 15 22 ?cont"
    using insert_completion_session [OF b, of ?cont ascii_casefold example_config CYCLE_FORWARD]
    by simp
  then have 2: "insert_completion ascii_casefold example_config (Some accepted_buffer)
      CYCLE_FORWARD ?cont
      = Some (\<lparr>prev_completion = Some ''foo'', candidates = repeated_list\<rparr>,
               [CancelAutocompletePopup, StartUndoAction, SetTargetStart 15, SetTargetEnd 19,
                ReplaceTarget ''foo'', SetCurrentPosition 18, EndUndoAction])"
    by (simp add: insert_completion_replace_def cycle_candidates_def repeated_list_def
          example_config_def utils_str_equal_def)
  show ?thesis using a(1-5) b(1-5) new 1 2 by blast
qed

text \<open>
  Claim C9. When the two passes of a new session collect nothing, the call leaves an empty
  session and sends one command only: the status bar message that quotes the prefix.
\<close>

theorem insert_completion_no_candidates:
  assumes "pos = sci_get_selection_start sci"
    and "start = sci_word_start_position sci pos"
    and "endp = sci_word_end_position sci pos"
    and "prefix = sci_get_contents_range sci start pos"
    and "word = sci_get_contents_range sci start endp"
    and "start < pos"
    and "prev_completion st \<noteq> Some prefix"
    and "find_candidates_scan g_utf8_casefold sci cfg prefix word pos [] = Some ([], history)"
  shows "insert_completion g_utf8_casefold cfg (Some sci) direction st
    = Some (\<lparr>prev_completion = None, candidates = []\<rparr>,
            [SetStatusbar (''No completions found for '' @ [CHR 0x22] @ prefix
                             @ [CHR 0x22] @ ''.'')])"
proof -
  have "find_candidates g_utf8_casefold sci cfg prefix word pos [] = Some ([], history)"
    using assms(8) by (simp add: find_candidates_def find_candidates_sort_def)
  moreover have "(case prev_completion st of None \<Rightarrow> True
      | Some p \<Rightarrow> \<not> utils_str_equal prefix p)"
    using assms(7) by (cases "prev_completion st") (auto simp: utils_str_equal_def)
  ultimately show ?thesis
    unfolding insert_completion_unfold [OF assms(1-6)]
    by (simp add: insert_completion_refresh_def insert_completion_replace_def
          no_completions_message_def)
qed


theorem insert_completion_no_candidates_witness:
  "11 = sci_get_selection_start lonely_buffer
   \<and> 8 = sci_word_start_position lonely_buffer 11
   \<and> 11 = sci_word_end_position lonely_buffer 11
   \<and> ''qux'' = sci_get_contents_range lonely_buffer 8 11
   \<and> prev_completion \<lparr>prev_completion = Some ''food'', candidates = example_list\<rparr> \<noteq> Some ''qux''
   \<and> find_candidates_scan ascii_casefold lonely_buffer example_config ''qux'' ''qux'' 11 []
       = Some ([], [])
   \<and> insert_completion ascii_casefold example_config (Some lonely_buffer) CYCLE_BACKWARD
        \<lparr>prev_completion = Some ''food'', candidates = example_list\<rparr>
       = Some (\<lparr>prev_completion = None, candidates = []\<rparr>,
               [SetStatusbar (''No completions found for '' @ [CHR 0x22] @ ''qux''
                                @ [CHR 0x22] @ ''.'')])"
proof -
  have a: "11 = sci_get_selection_start lonely_buffer"
    "8 = sci_word_start_position lonely_buffer 11"
    "11 = sci_word_end_position lonely_buffer 11"
    "''qux'' = sci_get_contents_range lonely_buffer 8 11"
    "''qux'' = sci_get_contents_range lonely_buffer 8 11"
    "(8 :: int) < 11"
    by (simp_all add: lonely_buffer_def text_buffer_def is_word_char_def)
  let ?st = "\<lparr>prev_completion = Some ''food'', candidates = example_list\<rparr>"
  have new: "prev_completion ?st \<noteq> Some ''qux''" by simp
  from insert_completion_no_candidates [OF a new lonely_scan, of CYCLE_BACKWARD]
    a(1-4) new lonely_scan
  show ?thesis by blast
qed


section \<open>The scan returns when the editor lets it advance\<close>

lemma find_words_loop_returns:
  assumes prog: "editor_progress sci" and nonneg: "0 \<le> source_start"
  shows "\<exists>s'. find_words_loop sci cfg prefix word pos select_func mt pattern
      source_start source_end match_start s = Some s'"
proof (induction "nat (source_end - match_start)" arbitrary: match_start s rule: less_induct)
  case less
  show ?case
  proof (cases "source_start \<le> match_start \<and> match_start < source_end")
    case False
    then show ?thesis by (subst find_words_loop.simps) auto
  next
    case True
    let ?me = "sci_word_end_position sci (match_start + 1)"
    let ?s = "find_words_collect prefix word pos select_func mt
        (sci_get_contents_range sci match_start ?me) match_start s"
    let ?next = "sci_find_text sci ?me source_end pattern"
    show ?thesis
    proof (cases "num_matches ?s = candidates_limit cfg")
      case T: True
      with True show ?thesis by (subst find_words_loop.simps) (simp add: Let_def)
    next
      case F: False
      have me: "match_start + 1 \<le> ?me" using prog by (simp add: editor_progress_def)
      have "?next < 0 \<or> ?me \<le> ?next" using prog by (simp add: editor_progress_def)
      then have "\<exists>s'. find_words_loop sci cfg prefix word pos select_func mt pattern
          source_start source_end ?next ?s = Some s'"
      proof
        assume "?next < 0"
        with nonneg show ?thesis by (subst find_words_loop.simps) auto
      next
        assume "?me \<le> ?next"
        with me True have "nat (source_end - ?next) < nat (source_end - match_start)" by simp
        then show ?thesis by (rule less.hyps)
      qed
      with True F show ?thesis by (subst find_words_loop.simps) (simp add: Let_def)
    qed
  qed
qed

lemma find_words_returns:
  assumes "editor_progress sci" and "search_window sci cfg pos \<noteq> None"
  shows "\<exists>s'. find_words sci cfg prefix word pos select_func cs history = Some s'"
proof -
  from assms(2) obtain source_start source_end where
    w: "search_window sci cfg pos = Some (source_start, source_end)" by auto
  then have "0 \<le> source_start"
    by (auto simp: search_window_def Let_def split: if_splits)
  from find_words_loop_returns [OF assms(1) this] w show ?thesis
    by (simp add: find_words_def Let_def)
qed

lemma find_candidates_returns:
  assumes "editor_progress sci" and "search_window sci cfg pos \<noteq> None"
  shows "\<exists>built history.
    find_candidates g_utf8_casefold sci cfg prefix word pos cs = Some (built, history)"
proof -
  from find_words_returns [OF assms] obtain s1 where
    s1: "find_words sci cfg prefix word pos None cs [] = Some s1" by blast
  from find_words_returns [OF assms] obtain s2 where
    s2: "find_words sci cfg prefix word pos (Some (match_fuzzy_forward g_utf8_casefold))
          (cand_list s1) (seen s1) = Some s2" by blast
  show ?thesis using s1 s2
    by (simp add: find_candidates_def find_candidates_scan_def)
qed

lemma buffer_find_from_progress:
  "buffer_find_from pattern left rest i cpMax < 0
   \<or> int i \<le> buffer_find_from pattern left rest i cpMax"
  by (induction pattern left rest i cpMax rule: buffer_find_from.induct) auto

lemma text_buffer_progress: "editor_progress (text_buffer buf cursor)"
proof -
  have "buffer_find_text buf cpMin cpMax pattern < 0
      \<or> cpMin \<le> buffer_find_text buf cpMin cpMax pattern" for cpMin cpMax pattern
    using buffer_find_from_progress [of pattern _ "drop (nat cpMin) buf" "nat cpMin" "nat cpMax"]
    unfolding buffer_find_text_def by (metis int_nat_eq linorder_le_cases order_trans)
  then show ?thesis by (simp add: editor_progress_def text_buffer_def)
qed

lemma insert_completion_returns:
  assumes "editor_progress sci"
    and "search_window sci cfg (sci_get_selection_start sci) \<noteq> None"
  shows "\<exists>st' commands.
    insert_completion g_utf8_casefold cfg (Some sci) direction st = Some (st', commands)"
proof -
  let ?pos = "sci_get_selection_start sci"
  let ?start = "sci_word_start_position sci ?pos"
  let ?endp = "sci_word_end_position sci ?pos"
  let ?prefix = "sci_get_contents_range sci ?start ?pos"
  let ?word = "sci_get_contents_range sci ?start ?endp"
  show ?thesis
  proof (cases "?start < ?pos")
    case False
    then show ?thesis by (simp add: insert_completion_def Let_def)
  next
    case True
    from find_candidates_returns [OF assms, of g_utf8_casefold ?prefix ?word "[]"]
    obtain built history where
      "find_candidates g_utf8_casefold sci cfg ?prefix ?word ?pos [] = Some (built, history)"
      by blast
    then have "\<exists>st1.
      insert_completion_refresh g_utf8_casefold sci cfg ?prefix ?word ?pos st = Some st1"
      by (simp add: insert_completion_refresh_def)
    then obtain st1 where
      r: "insert_completion_refresh g_utf8_casefold sci cfg ?prefix ?word ?pos st = Some st1"
      by blast
    have "\<exists>st' commands. insert_completion_replace cfg direction ?prefix ?pos ?start ?endp st1
        = Some (st', commands)"
    proof (cases "candidates st1 = []")
      case True
      then show ?thesis by (simp add: insert_completion_replace_def)
    next
      case False
      from cycle_candidates_mem [OF this, of direction "prev_completion st1"]
      show ?thesis using False by (auto simp: insert_completion_replace_def)
    qed
    with r True show ?thesis
      using insert_completion_unfold [OF refl refl refl refl refl True,
          of g_utf8_casefold cfg direction st]
      by simp
  qed
qed


section \<open>The typed prefix twice in the list\<close>

text \<open>
  When the entry appended at line 317 is the word under the cursor, which line 258 keeps
  out of the list, all texts of the built list are distinct. This is so when the trailing
  part of the word is replaced too, and when the cursor is at the end of the word.
\<close>

lemma find_candidates_texts_distinct:
  assumes run: "find_candidates g_utf8_casefold sci cfg prefix word pos [] = Some (built, history)"
    and whole: "remove_trailing_word_part cfg \<or> prefix = word"
  shows "distinct (map ctext built)"
proof (cases "built = []")
  case True
  then show ?thesis by simp
next
  case ne: False
  from find_candidates_parts [OF run] obtain collected where
    scan: "find_candidates_scan g_utf8_casefold sci cfg prefix word pos [] = Some (collected, history)"
    and built: "built = find_candidates_sort cfg prefix word collected" by blast
  have inv: "scan_invariant word pos collected history"
    by (rule find_candidates_scan_invariant [OF scan])
  have "collected \<noteq> []" using ne built find_candidates_sort_shape(1) by auto
  from find_candidates_sort_shape(2) [OF this, of cfg prefix word] built
  obtain ranked where
    shape: "built = ranked @ [\<lparr>dist = 0,
        ctext = (if remove_trailing_word_part cfg then word else prefix),
        match_type = MATCH_EXACT\<rparr>]"
    and perm: "mset ranked = mset collected" by auto
  have "distinct (map ctext collected)" using inv by (simp add: scan_invariant_def)
  with perm have d: "distinct (map ctext ranked)" by (rule distinct_map_mset)
  have s: "set ranked = set collected" using perm by (rule mset_eq_setD)
  then have w: "word \<notin> ctext ` set ranked" using inv by (simp add: scan_invariant_def)
  from whole have "(if remove_trailing_word_part cfg then word else prefix) = word" by auto
  with d w show ?thesis by (simp add: shape)
qed

lemma find_candidates_cycle_closed:
  assumes run: "find_candidates g_utf8_casefold sci cfg prefix word pos [] = Some (built, history)"
    and whole: "remove_trailing_word_part cfg \<or> prefix = word"
    and i: "i < length built"
  shows "cycle_candidates CYCLE_FORWARD (Some (ctext (built ! i))) built
           = Some (ctext (built ! ((i + 1) mod length built)))"
    and "cycle_candidates CYCLE_BACKWARD (Some (ctext (built ! i))) built
           = Some (ctext (built ! ((i + length built - 1) mod length built)))"
    and "((\<lambda>prev. cycle_candidates CYCLE_FORWARD prev built) ^^ length built)
           (Some (ctext (built ! i))) = Some (ctext (built ! i))"
    and "((\<lambda>prev. cycle_candidates CYCLE_BACKWARD prev built) ^^ length built)
           (Some (ctext (built ! i))) = Some (ctext (built ! i))"
    and "cycle_candidates CYCLE_BACKWARD
           (cycle_candidates CYCLE_FORWARD (Some (ctext (built ! i))) built) built
           = Some (ctext (built ! i))"
proof -
  note d = find_candidates_texts_distinct [OF run whole]
  note first = distinct_first_match [OF d i]
  have m: "ctext (built ! i) \<in> ctext ` set built" using i by simp
  show "cycle_candidates CYCLE_FORWARD (Some (ctext (built ! i))) built
           = Some (ctext (built ! ((i + 1) mod length built)))"
    by (rule cycle_forward_index [OF i refl first])
  show "cycle_candidates CYCLE_BACKWARD (Some (ctext (built ! i))) built
           = Some (ctext (built ! ((i + length built - 1) mod length built)))"
    by (rule cycle_backward_index [OF i refl first])
  show "((\<lambda>prev. cycle_candidates CYCLE_FORWARD prev built) ^^ length built)
           (Some (ctext (built ! i))) = Some (ctext (built ! i))"
    using cycle_candidates_wraparound [OF d m] by simp
  show "((\<lambda>prev. cycle_candidates CYCLE_BACKWARD prev built) ^^ length built)
           (Some (ctext (built ! i))) = Some (ctext (built ! i))"
    using cycle_candidates_wraparound [OF d m] by simp
  show "cycle_candidates CYCLE_BACKWARD
           (cycle_candidates CYCLE_FORWARD (Some (ctext (built ! i))) built) built
           = Some (ctext (built ! i))"
    using cycle_candidates_wraparound [OF d m] by simp
qed

text \<open>
  The example document under the three settings: the prefix \<^verbatim>\<open>foo\<close> is appended behind the
  candidate \<^verbatim>\<open>foo\<close> when the trailing part of the word is kept, and the word \<^verbatim>\<open>foobar\<close>
  when it is replaced.
\<close>

lemma default_list_built:
  "map_option fst (find_candidates ascii_casefold repeated_buffer default_config ''foo'' ''foobar'' 18 [])
     = Some default_list"
  by code_simp

lemma whole_word_list_built:
  "find_candidates ascii_casefold repeated_buffer
     (example_config\<lparr>remove_trailing_word_part := True\<rparr>) ''foo'' ''foobar'' 18 []
     = Some (whole_word_list, repeated_history)"
  by code_simp

text \<open>
  Claim C1. The claim takes any index \<open>i\<close> whose text is the previous completion and expects
  the text at \<open>(i + 1) mod |L|\<close> from Forward and the text at \<open>(i - 1 + |L|) mod |L|\<close> from
  Backward. The code does otherwise on a list it builds itself. For the document
  \<^verbatim>\<open>foo food fxoxo foobar\<close> with the cursor behind \<^verbatim>\<open>foo\<close> in \<^verbatim>\<open>foobar\<close>, line 258 keeps the
  word \<^verbatim>\<open>foobar\<close> out of the list, for the entry that the comment of line 257 says will be
  appended; line 317 appends the prefix \<^verbatim>\<open>foo\<close> instead, which is a word of the document and
  already a candidate. The list is \<^verbatim>\<open>food, foo, foo\<close>. With the previous completion \<^verbatim>\<open>foo\<close>,
  the text at index 2, Forward returns \<^verbatim>\<open>foo\<close> where the text at index \<open>(2 + 1) mod 3\<close> is
  \<^verbatim>\<open>food\<close>, and Backward returns \<^verbatim>\<open>food\<close> where the text at index \<open>(2 - 1 + 3) mod 3\<close> is
  \<^verbatim>\<open>foo\<close>: the wrap of lines 341 to 344 is never taken. Under the settings of a fresh
  installation the list is \<^verbatim>\<open>food, foo, fxoxo, foo\<close>, and Forward from the last text returns
  \<^verbatim>\<open>fxoxo\<close>, not the first text.
\<close>

theorem cycle_candidates_repeated_prefix:
  "find_candidates ascii_casefold repeated_buffer example_config ''foo'' ''foobar'' 18 []
     = Some (repeated_list, repeated_history)
   \<and> map ctext repeated_list = [''food'', ''foo'', ''foo'']
   \<and> 2 < length repeated_list \<and> ctext (repeated_list ! 2) = ''foo''
   \<and> ctext (repeated_list ! ((2 + 1) mod length repeated_list)) = ''food''
   \<and> cycle_candidates CYCLE_FORWARD (Some ''foo'') repeated_list = Some ''foo''
   \<and> ctext (repeated_list ! ((2 + length repeated_list - 1) mod length repeated_list)) = ''foo''
   \<and> cycle_candidates CYCLE_BACKWARD (Some ''foo'') repeated_list = Some ''food''
   \<and> map_option fst
        (find_candidates ascii_casefold repeated_buffer default_config ''foo'' ''foobar'' 18 [])
       = Some default_list
   \<and> map ctext default_list = [''food'', ''foo'', ''fxoxo'', ''foo'']
   \<and> ctext (default_list ! ((3 + 1) mod length default_list)) = ''food''
   \<and> cycle_candidates CYCLE_FORWARD (Some ''foo'') default_list = Some ''fxoxo''"
proof -
  have "map ctext repeated_list = [''food'', ''foo'', ''foo'']"
    "2 < length repeated_list" "ctext (repeated_list ! 2) = ''foo''"
    "ctext (repeated_list ! ((2 + 1) mod length repeated_list)) = ''food''"
    "cycle_candidates CYCLE_FORWARD (Some ''foo'') repeated_list = Some ''foo''"
    "ctext (repeated_list ! ((2 + length repeated_list - 1) mod length repeated_list)) = ''foo''"
    "cycle_candidates CYCLE_BACKWARD (Some ''foo'') repeated_list = Some ''food''"
    by (simp_all add: repeated_list_def cycle_candidates_def utils_str_equal_def)
  moreover have "map ctext default_list = [''food'', ''foo'', ''fxoxo'', ''foo'']"
    "ctext (default_list ! ((3 + 1) mod length default_list)) = ''food''"
    "cycle_candidates CYCLE_FORWARD (Some ''foo'') default_list = Some ''fxoxo''"
    by (simp_all add: default_list_def cycle_candidates_def utils_str_equal_def)
  ultimately show ?thesis using repeated_list_built default_list_built by simp
qed

text \<open>
  Claim C2. The claim expects \<open>|L|\<close> Forward steps, each result accepted, to come back to
  the start, and a Backward step to undo a Forward step. Three keypresses on the same
  document: the first scans and inserts \<^verbatim>\<open>food\<close>, which gives the document of
  \<open>accepted_buffer\<close>; the second inserts \<^verbatim>\<open>foo\<close>, which gives the first document again; the
  third finds \<^verbatim>\<open>foo\<close> at index 1, returns the text at index 2, which is \<^verbatim>\<open>foo\<close>, and leaves
  document and session as they were, so every later Forward keypress does the same. Three
  Forward steps from \<^verbatim>\<open>food\<close> end at \<^verbatim>\<open>foo\<close>, three Backward steps from \<^verbatim>\<open>foo\<close> end at
  \<^verbatim>\<open>food\<close>, and Backward after Forward from \<^verbatim>\<open>foo\<close> gives \<^verbatim>\<open>food\<close>. The list is the one of
  claim C1, built by lines 258 and 317.
\<close>

theorem insert_completion_forward_stuck:
  "insert_completion ascii_casefold example_config (Some repeated_buffer) CYCLE_FORWARD
      \<lparr>prev_completion = None, candidates = []\<rparr>
     = Some (\<lparr>prev_completion = Some ''food'', candidates = repeated_list\<rparr>,
             [CancelAutocompletePopup, StartUndoAction, SetTargetStart 15, SetTargetEnd 18,
              ReplaceTarget ''food'', SetCurrentPosition 19, EndUndoAction])
   \<and> insert_completion ascii_casefold example_config (Some accepted_buffer) CYCLE_FORWARD
      \<lparr>prev_completion = Some ''food'', candidates = repeated_list\<rparr>
     = Some (\<lparr>prev_completion = Some ''foo'', candidates = repeated_list\<rparr>,
             [CancelAutocompletePopup, StartUndoAction, SetTargetStart 15, SetTargetEnd 19,
              ReplaceTarget ''foo'', SetCurrentPosition 18, EndUndoAction])
   \<and> insert_completion ascii_casefold example_config (Some repeated_buffer) CYCLE_FORWARD
      \<lparr>prev_completion = Some ''foo'', candidates = repeated_list\<rparr>
     = Some (\<lparr>prev_completion = Some ''foo'', candidates = repeated_list\<rparr>,
             [CancelAutocompletePopup, StartUndoAction, SetTargetStart 15, SetTargetEnd 18,
              ReplaceTarget ''foo'', SetCurrentPosition 18, EndUndoAction])
   \<and> length repeated_list = 3
   \<and> cycle_candidates CYCLE_FORWARD (Some ''food'') repeated_list = Some ''foo''
   \<and> cycle_candidates CYCLE_FORWARD (Some ''foo'') repeated_list = Some ''foo''
   \<and> ((\<lambda>prev. cycle_candidates CYCLE_FORWARD prev repeated_list) ^^ 3) (Some ''food'')
       = Some ''foo''
   \<and> ((\<lambda>prev. cycle_candidates CYCLE_BACKWARD prev repeated_list) ^^ 3) (Some ''foo'')
       = Some ''food''
   \<and> cycle_candidates CYCLE_BACKWARD
        (cycle_candidates CYCLE_FORWARD (Some ''foo'') repeated_list) repeated_list
       = Some ''food''"
proof -
  have press:
    "insert_completion ascii_casefold example_config (Some repeated_buffer) CYCLE_FORWARD
      \<lparr>prev_completion = None, candidates = []\<rparr>
     = Some (\<lparr>prev_completion = Some ''food'', candidates = repeated_list\<rparr>,
             [CancelAutocompletePopup, StartUndoAction, SetTargetStart 15, SetTargetEnd 18,
              ReplaceTarget ''food'', SetCurrentPosition 19, EndUndoAction])"
    "insert_completion ascii_casefold example_config (Some accepted_buffer) CYCLE_FORWARD
      \<lparr>prev_completion = Some ''food'', candidates = repeated_list\<rparr>
     = Some (\<lparr>prev_completion = Some ''foo'', candidates = repeated_list\<rparr>,
             [CancelAutocompletePopup, StartUndoAction, SetTargetStart 15, SetTargetEnd 19,
              ReplaceTarget ''foo'', SetCurrentPosition 18, EndUndoAction])"
    "insert_completion ascii_casefold example_config (Some repeated_buffer) CYCLE_FORWARD
      \<lparr>prev_completion = Some ''foo'', candidates = repeated_list\<rparr>
     = Some (\<lparr>prev_completion = Some ''foo'', candidates = repeated_list\<rparr>,
             [CancelAutocompletePopup, StartUndoAction, SetTargetStart 15, SetTargetEnd 18,
              ReplaceTarget ''foo'', SetCurrentPosition 18, EndUndoAction])"
    by code_simp+
  have steps:
    "length repeated_list = 3"
    "cycle_candidates CYCLE_FORWARD (Some ''food'') repeated_list = Some ''foo''"
    "cycle_candidates CYCLE_FORWARD (Some ''foo'') repeated_list = Some ''foo''"
    "cycle_candidates CYCLE_BACKWARD (Some ''foo'') repeated_list = Some ''food''"
    "cycle_candidates CYCLE_BACKWARD (Some ''food'') repeated_list = Some ''foo''"
    by (simp_all add: repeated_list_def cycle_candidates_def utils_str_equal_def)
  show ?thesis using press steps by (simp add: eval_nat_numeral)
qed


section \<open>The search window\<close>

text \<open>The scan reads the editor only through the calls of \<open>same_answers_in_window\<close>.\<close>

lemma find_words_loop_same_answers:
  assumes run: "find_words_loop sci cfg prefix word pos select_func mt pattern
      source_start source_end match_start s = Some s'"
    and same: "same_answers_in_window sci sci' source_start source_end"
  shows "find_words_loop sci' cfg prefix word pos select_func mt pattern
      source_start source_end match_start s = Some s'"
proof -
  define P where "P = (\<lambda>sci0 (cfg0 :: PluginConfig) (prefix0 :: string) (word0 :: string)
      (pos0 :: int) (select_func0 :: SelectFunc option) (mt0 :: MatchType) (pattern0 :: string)
      source_start0 source_end0 (m :: int) (s0 :: ScanState) s1.
      sci0 = sci \<and> source_start0 = source_start \<and> source_end0 = source_end
      \<longrightarrow> find_words_loop sci' cfg0 prefix0 word0 pos0 select_func0 mt0 pattern0
            source_start0 source_end0 m s0 = Some s1)"
  have "P sci cfg prefix word pos select_func mt pattern source_start source_end match_start s s'"
  proof (rule find_words_loop.raw_induct [where P = P, OF _ run])
    fix f sci0 cfg0 prefix0 word0 pos0 select_func0 mt0 pattern0 source_start0 source_end0
      and m :: int and s0 :: ScanState and s1
    assume ih: "\<And>sci cfg prefix word pos select_func mt pattern source_start source_end
        match_start s y.
        f sci cfg prefix word pos select_func mt pattern source_start source_end match_start s
          = Some y \<Longrightarrow>
        P sci cfg prefix word pos select_func mt pattern source_start source_end match_start s y"
      and body: "(if source_start0 \<le> m \<and> m < source_end0
        then let match_end = sci_word_end_position sci0 (m + 1);
                 match = sci_get_contents_range sci0 m match_end;
                 s' = find_words_collect prefix0 word0 pos0 select_func0 mt0 match m s0
             in if num_matches s' = candidates_limit cfg0 then Some s'
                else f sci0 cfg0 prefix0 word0 pos0 select_func0 mt0 pattern0
                       source_start0 source_end0
                       (sci_find_text sci0 match_end source_end0 pattern0) s'
        else Some s0) = Some s1"
    show "P sci0 cfg0 prefix0 word0 pos0 select_func0 mt0 pattern0 source_start0 source_end0 m s0 s1"
      unfolding P_def
    proof (intro impI, elim conjE)
      assume eqs: "sci0 = sci" "source_start0 = source_start" "source_end0 = source_end"
      show "find_words_loop sci' cfg0 prefix0 word0 pos0 select_func0 mt0 pattern0
          source_start0 source_end0 m s0 = Some s1"
      proof (cases "source_start \<le> m \<and> m < source_end")
        case False
        with body eqs have "s1 = s0" by (auto split: if_splits)
        with False eqs show ?thesis by (subst find_words_loop.simps) auto
      next
        case True
        let ?me = "sci_word_end_position sci (m + 1)"
        let ?match = "sci_get_contents_range sci m ?me"
        let ?s = "find_words_collect prefix0 word0 pos0 select_func0 mt0 ?match m s0"
        from same True have we: "sci_word_end_position sci' (m + 1) = ?me"
          and cr: "sci_get_contents_range sci' m ?me = ?match"
          and ft: "sci_find_text sci' ?me source_end pattern0
                 = sci_find_text sci ?me source_end pattern0"
          by (simp_all add: same_answers_in_window_def)
        show ?thesis
        proof (cases "num_matches ?s = candidates_limit cfg0")
          case stop: True
          with body eqs True have "s1 = ?s" by (simp add: Let_def)
          with stop True eqs we cr show ?thesis
            by (subst find_words_loop.simps) (simp add: Let_def)
        next
          case go: False
          with body eqs True have
            "f sci cfg0 prefix0 word0 pos0 select_func0 mt0 pattern0 source_start source_end
               (sci_find_text sci ?me source_end pattern0) ?s = Some s1"
            by (simp add: Let_def)
          from ih [OF this] have
            "find_words_loop sci' cfg0 prefix0 word0 pos0 select_func0 mt0 pattern0
               source_start source_end (sci_find_text sci ?me source_end pattern0) ?s = Some s1"
            by (simp add: P_def)
          with go True eqs we cr ft show ?thesis
            by (subst find_words_loop.simps) (simp add: Let_def)
        qed
      qed
    qed
  qed
  then show ?thesis by (simp add: P_def)
qed

lemma search_window_same_answers:
  "same_answers_in_window sci sci' source_start source_end \<Longrightarrow>
   search_window sci' cfg pos = search_window sci cfg pos"
  by (auto simp: search_window_def same_answers_in_window_def Let_def)

lemma find_words_same_answers:
  assumes run: "find_words sci cfg prefix word pos select_func cs history = Some s'"
    and w: "search_window sci cfg pos = Some (source_start, source_end)"
    and same: "same_answers_in_window sci sci' source_start source_end"
  shows "find_words sci' cfg prefix word pos select_func cs history = Some s'"
proof -
  let ?pattern = "case select_func of Some _ \<Rightarrow> take 1 prefix | None \<Rightarrow> prefix"
  let ?mt = "case select_func of Some _ \<Rightarrow> MATCH_FUZZY_FORWARD | None \<Rightarrow> MATCH_EXACT"
  from run w have loop: "find_words_loop sci cfg prefix word pos select_func ?mt ?pattern
      source_start source_end (sci_find_text sci source_start source_end ?pattern)
      \<lparr>cand_list = cs, num_matches = 0, seen = history\<rparr> = Some s'"
    by (simp add: find_words_def Let_def)
  from same have first: "sci_find_text sci' source_start source_end ?pattern
      = sci_find_text sci source_start source_end ?pattern"
    by (simp add: same_answers_in_window_def)
  from find_words_loop_same_answers [OF loop same] first
    search_window_same_answers [OF same, of cfg pos] w
  show ?thesis by (simp add: find_words_def Let_def)
qed

lemma find_candidates_same_answers:
  assumes run: "find_candidates g_utf8_casefold sci cfg prefix word pos cs = Some (built, history)"
    and w: "search_window sci cfg pos = Some (source_start, source_end)"
    and same: "same_answers_in_window sci sci' source_start source_end"
  shows "find_candidates g_utf8_casefold sci' cfg prefix word pos cs = Some (built, history)"
proof -
  from run obtain s1 where
    s1: "find_words sci cfg prefix word pos None cs [] = Some s1"
    by (auto simp: find_candidates_def find_candidates_scan_def split: option.splits)
  note t1 = find_words_same_answers [OF s1 w same]
  show ?thesis
  proof (cases "num_matches s1 = 0 \<or> \<not> skip_fuzzy_if_exact cfg")
    case False
    with run s1 t1 show ?thesis
      by (auto simp: find_candidates_def find_candidates_scan_def split: option.splits)
  next
    case True
    with run s1 obtain s2 where
      s2: "find_words sci cfg prefix word pos (Some (match_fuzzy_forward g_utf8_casefold))
             (cand_list s1) (seen s1) = Some s2"
      by (auto simp: find_candidates_def find_candidates_scan_def split: option.splits)
    note t2 = find_words_same_answers [OF s2 w same]
    from True run s1 s2 t1 t2 show ?thesis
      by (auto simp: find_candidates_def find_candidates_scan_def split: option.splits)
  qed
qed

lemma search_window_None:
  "search_window sci cfg pos = None \<Longrightarrow>
   find_candidates g_utf8_casefold sci cfg prefix word pos cs = None"
  by (simp add: find_candidates_def find_candidates_scan_def find_words_def)

lemma find_candidates_radius:
  assumes run: "find_candidates g_utf8_casefold sci cfg prefix word pos [] = Some (built, history)"
    and near: "\<forall>(t, ms, k) \<in> set history. \<bar>ms - pos\<bar> \<le> r" and r: "0 \<le> r"
  shows "\<forall>c \<in> set built. dist c \<le> r"
proof
  from find_candidates_parts [OF run] obtain collected where
    scan: "find_candidates_scan g_utf8_casefold sci cfg prefix word pos [] = Some (collected, history)"
    and built: "built = find_candidates_sort cfg prefix word collected" by blast
  have inv: "scan_invariant word pos collected history"
    by (rule find_candidates_scan_invariant [OF scan])
  fix c assume c: "c \<in> set built"
  show "dist c \<le> r"
  proof (cases "c \<in> set collected")
    case True
    with inv have ne: "occurrence_distances history pos (ctext c) \<noteq> []"
      and m: "dist c = Min (set (occurrence_distances history pos (ctext c)))"
      by (auto simp: scan_invariant_def)
    have "\<forall>d \<in> set (occurrence_distances history pos (ctext c)). d \<le> r"
      using near by (auto simp: occurrence_distances_def)
    moreover have "Min (set (occurrence_distances history pos (ctext c)))
        \<in> set (occurrence_distances history pos (ctext c))"
      using ne by (intro Min_in) auto
    ultimately show ?thesis using m by simp
  next
    case False
    have "collected \<noteq> []" using c built find_candidates_sort_shape(1) by auto
    from find_candidates_sort_shape(2) [OF this, of cfg prefix word] built
    obtain ranked where
      shape: "built = ranked @ [\<lparr>dist = 0,
        ctext = (if remove_trailing_word_part cfg then word else prefix),
        match_type = MATCH_EXACT\<rparr>]"
      and perm: "mset ranked = mset collected" by auto
    have "set ranked = set collected" using perm by (rule mset_eq_setD)
    with False c shape have "dist c = 0" by auto
    with r show ?thesis by simp
  qed
qed

text \<open>
  The long document: a search that starts in a run of spaces skips it, and the answers of
  the editor that the two scans ask for.
\<close>

lemma buffer_find_from_beyond:
  "i + length pattern > cpMax \<Longrightarrow> buffer_find_from pattern left xs i cpMax = - 1"
  by (cases xs) simp_all

lemma buffer_find_from_skip:
  assumes "pattern \<noteq> []" "hd pattern \<noteq> c" "0 < n"
  shows "buffer_find_from pattern left (replicate n c @ rest) i cpMax =
     (if i + n + length pattern > cpMax then - 1
      else buffer_find_from pattern (Some c) rest (i + n) cpMax)"
  using assms(3)
proof (induction n arbitrary: left i)
  case 0
  then show ?case by simp
next
  case (Suc m)
  have ne: "take (length pattern) (c # replicate m c @ rest) \<noteq> pattern"
    using assms(1,2) by (cases pattern) auto
  show ?case
  proof (cases "m = 0")
    case True
    then show ?thesis using ne by (simp add: buffer_find_from_beyond)
  next
    case False
    then have "0 < m" by simp
    from Suc.IH [OF this, of "Some c" "Suc i"] show ?thesis using ne by auto
  qed
qed

lemma space_no_word_char: "\<not> is_word_char (CHR '' '')"
  by code_simp

lemma far_drop:
  "drop 0 far_text = far_text"
  "drop (Suc 0) far_text = ''oofar'' @ replicate 1101 (CHR '' '') @ ''foonear foo''"
  "drop 6 far_text = replicate 1101 (CHR '' '') @ ''foonear foo''"
  "drop 94 far_text = replicate 1013 (CHR '' '') @ ''foonear foo''"
  "drop 1107 far_text = ''foonear foo''"
  "drop 1108 far_text = ''oonear foo''"
  "drop 1114 far_text = '' foo''"
  "drop 1115 far_text = ''foo''"
  "drop 1116 far_text = ''oo''"
  "drop 1118 far_text = []"
  by (simp_all add: far_text_def)

lemma far_nth:
  "far_text ! 5 = CHR ''r''"
  "far_text ! 93 = CHR '' ''"
  "far_text ! 1113 = CHR ''r''"
  "far_text ! 1117 = CHR ''o''"
  by (simp_all add: far_text_def nth_append)

lemma far_head:
  "buffer_find_from ''foo'' None far_text 0 1118 = 0"
  "buffer_find_from ''f'' None far_text 0 1118 = 0"
  "take 6 far_text = ''foofar''"
  by (simp_all add: far_text_def)

lemma far_text_length: "length far_text = 1118"
  by (simp add: far_text_def)

lemma near_find:
  "buffer_find_from ''foo'' (Some (CHR '' '')) ''foonear foo'' 1107 1118 = 1107"
  "buffer_find_from ''f'' (Some (CHR '' '')) ''foonear foo'' 1107 1118 = 1107"
  "buffer_find_from ''foo'' (Some (CHR ''r'')) '' foo'' 1114 1118 = 1115"
  "buffer_find_from ''f'' (Some (CHR ''r'')) '' foo'' 1114 1118 = 1115"
  by code_simp+

lemma far_word_chars:
  "is_word_char CHR ''f''" "is_word_char CHR ''o''" "is_word_char CHR ''a''"
  "is_word_char CHR ''r''" "is_word_char CHR ''n''" "is_word_char CHR ''e''"
  by code_simp+

lemma far_window: "search_window far_buffer near_config 1118 = Some (94, 1118)"
  by (simp add: search_window_def near_config_def gint_range_def far_buffer_def text_buffer_def
        far_text_length)

lemma far_answers:
  "sci_find_text far_buffer 94 1118 ''foo'' = 1107"
  "sci_find_text far_buffer 94 1118 ''f'' = 1107"
  "sci_word_end_position far_buffer 1108 = 1114"
  "sci_get_contents_range far_buffer 1107 1114 = ''foonear''"
  "sci_find_text far_buffer 1114 1118 ''foo'' = 1115"
  "sci_find_text far_buffer 1114 1118 ''f'' = 1115"
  "sci_word_end_position far_buffer 1116 = 1118"
  "sci_get_contents_range far_buffer 1115 1118 = ''foo''"
  "sci_find_text far_buffer 1118 1118 ''foo'' = - 1"
  "sci_find_text far_buffer 1118 1118 ''f'' = - 1"
  "sci_find_text far_buffer 0 1118 ''foo'' = 0"
  "sci_find_text far_buffer 0 1118 ''f'' = 0"
  "sci_word_end_position far_buffer 1 = 6"
  "sci_get_contents_range far_buffer 0 6 = ''foofar''"
  "sci_find_text far_buffer 6 1118 ''foo'' = 1107"
  "sci_find_text far_buffer 6 1118 ''f'' = 1107"
  by (simp_all add: far_buffer_def text_buffer_def buffer_find_text_def far_drop far_nth
       far_text_length far_head buffer_find_from_skip near_find far_word_chars space_no_word_char)

lemma far_fuzzy:
  "match_fuzzy_forward ascii_casefold ''foo'' ''foonear''"
  "match_fuzzy_forward ascii_casefold ''foo'' ''foo''"
  "match_fuzzy_forward ascii_casefold ''foo'' ''foofar''"
  by code_simp+

lemma near_config_fields:
  "candidates_limit near_config = 12" "skip_fuzzy_if_exact near_config = False"
  by (simp_all add: near_config_def)

lemma far_exact_pass:
  "find_words far_buffer near_config ''foo'' ''foo'' 1118 None [] []
     = Some \<lparr>cand_list = [\<lparr>dist = 11, ctext = ''foonear'', match_type = MATCH_EXACT\<rparr>],
             num_matches = 1, seen = [(''foonear'', 1107, MATCH_EXACT)]\<rparr>"
  by (simp add: find_words_def far_window far_answers find_words_loop.simps
        find_words_collect_def Let_def utils_str_equal_def compare_candidate_str_def
        g_strcmp0_eq near_config_fields)

lemma far_fuzzy_pass:
  "find_words far_buffer near_config ''foo'' ''foo'' 1118
      (Some (match_fuzzy_forward ascii_casefold))
      [\<lparr>dist = 11, ctext = ''foonear'', match_type = MATCH_EXACT\<rparr>]
      [(''foonear'', 1107, MATCH_EXACT)]
     = Some \<lparr>cand_list = [\<lparr>dist = 11, ctext = ''foonear'', match_type = MATCH_EXACT\<rparr>],
             num_matches = 0,
             seen = [(''foonear'', 1107, MATCH_EXACT), (''foonear'', 1107, MATCH_FUZZY_FORWARD)]\<rparr>"
  by (simp add: find_words_def far_window far_answers find_words_loop.simps
        find_words_collect_def Let_def utils_str_equal_def compare_candidate_str_def
        g_strcmp0_eq near_config_fields far_fuzzy)

lemma far_scan:
  "find_candidates_scan ascii_casefold far_buffer near_config ''foo'' ''foo'' 1118 []
     = Some ([\<lparr>dist = 11, ctext = ''foonear'', match_type = MATCH_EXACT\<rparr>],
             [(''foonear'', 1107, MATCH_EXACT), (''foonear'', 1107, MATCH_FUZZY_FORWARD)])"
  by (simp add: find_candidates_scan_def far_exact_pass far_fuzzy_pass near_config_fields)

lemma default_config_fields:
  "candidates_limit default_config = 12" "skip_fuzzy_if_exact default_config = False"
  by (simp_all add: default_config_def)

lemma far_length: "sci_get_length far_buffer = 1118"
  by (simp add: far_buffer_def text_buffer_def far_text_length)

lemma whole_window: "search_window far_buffer default_config 1118 = Some (0, 1118)"
  by (simp add: search_window_def default_config_def far_length)

lemma whole_exact_pass:
  "find_words far_buffer default_config ''foo'' ''foo'' 1118 None [] []
     = Some \<lparr>cand_list = [\<lparr>dist = 11, ctext = ''foonear'', match_type = MATCH_EXACT\<rparr>,
                          \<lparr>dist = 1118, ctext = ''foofar'', match_type = MATCH_EXACT\<rparr>],
             num_matches = 2,
             seen = [(''foofar'', 0, MATCH_EXACT), (''foonear'', 1107, MATCH_EXACT)]\<rparr>"
  by (simp add: find_words_def whole_window far_answers find_words_loop.simps
        find_words_collect_def Let_def utils_str_equal_def compare_candidate_str_def
        g_strcmp0_eq default_config_fields)

lemma whole_fuzzy_pass:
  "find_words far_buffer default_config ''foo'' ''foo'' 1118
      (Some (match_fuzzy_forward ascii_casefold))
      [\<lparr>dist = 11, ctext = ''foonear'', match_type = MATCH_EXACT\<rparr>,
       \<lparr>dist = 1118, ctext = ''foofar'', match_type = MATCH_EXACT\<rparr>]
      [(''foofar'', 0, MATCH_EXACT), (''foonear'', 1107, MATCH_EXACT)]
     = Some \<lparr>cand_list = [\<lparr>dist = 11, ctext = ''foonear'', match_type = MATCH_EXACT\<rparr>,
                          \<lparr>dist = 1118, ctext = ''foofar'', match_type = MATCH_EXACT\<rparr>],
             num_matches = 0, seen = whole_history\<rparr>"
  by (simp add: find_words_def whole_window far_answers find_words_loop.simps
        find_words_collect_def Let_def utils_str_equal_def compare_candidate_str_def
        g_strcmp0_eq default_config_fields far_fuzzy whole_history_def)

lemma whole_sort:
  "find_candidates_sort default_config ''foo'' ''foo''
     [\<lparr>dist = 11, ctext = ''foonear'', match_type = MATCH_EXACT\<rparr>,
      \<lparr>dist = 1118, ctext = ''foofar'', match_type = MATCH_EXACT\<rparr>] = whole_list"
  by code_simp

lemma whole_list_built:
  "find_candidates ascii_casefold far_buffer default_config ''foo'' ''foo'' 1118 []
     = Some (whole_list, whole_history)"
  by (simp add: find_candidates_def find_candidates_scan_def whole_exact_pass whole_fuzzy_pass
        default_config_fields whole_sort)

lemma far_sort:
  "find_candidates_sort near_config ''foo'' ''foo''
     [\<lparr>dist = 11, ctext = ''foonear'', match_type = MATCH_EXACT\<rparr>] = far_list"
  by code_simp

lemma far_list_built:
  "find_candidates ascii_casefold far_buffer near_config ''foo'' ''foo'' 1118 []
     = Some (far_list, far_history)"
  by (simp add: find_candidates_def far_scan far_sort far_history_def)

lemma far_masked_same: "same_answers_in_window far_buffer far_masked 94 1118"
proof -
  have "(94 :: int) \<le> sci_word_end_position far_buffer (m + 1)" if "94 \<le> m" for m
    using that by (simp add: far_buffer_def text_buffer_def)
  then show ?thesis
    by (simp add: same_answers_in_window_def far_masked_def)
qed

text \<open>
  Claim C8. The window is the whole buffer when \<^verbatim>\<open>distance_limit\<close> is 0 (or negative), and
  \<open>[pos - N * 1024, pos + N * 1024]\<close> cut to the buffer when it is \<open>N > 0\<close> and the radius
  and both ends fit a \<^verbatim>\<open>gint\<close>; when they do not, the arithmetic of lines 210 to 212
  overflows and there is no result. With a window, a scan of an editor that lets it advance
  returns. Every occurrence collected by a scan that returns starts inside the window, and
  with \<open>N > 0\<close> neither an occurrence nor a candidate is farther than \<open>N * 1024\<close> from the
  cursor. Both passes search with the bounds of the window only: an editor with the same
  answers inside the window gives the same list and the same occurrences, whatever it
  answers to other searches.
\<close>

theorem find_candidates_window:
  "(if distance_limit cfg \<le> 0
    then search_window sci cfg pos = Some (0, sci_get_length sci)
    else if gint_range (distance_limit cfg * 1024)
            \<and> gint_range (pos - distance_limit cfg * 1024)
            \<and> gint_range (pos + distance_limit cfg * 1024)
    then search_window sci cfg pos
           = Some (max (pos - distance_limit cfg * 1024) 0,
                   min (pos + distance_limit cfg * 1024) (sci_get_length sci))
    else search_window sci cfg pos = None
       \<and> find_candidates g_utf8_casefold sci cfg prefix word pos [] = None)
   \<and> (editor_progress sci \<and> search_window sci cfg pos \<noteq> None \<longrightarrow>
        (\<exists>built history.
           find_candidates g_utf8_casefold sci cfg prefix word pos [] = Some (built, history)))
   \<and> (\<forall>built history.
        find_candidates g_utf8_casefold sci cfg prefix word pos [] = Some (built, history) \<longrightarrow>
        (\<exists>source_start source_end.
            search_window sci cfg pos = Some (source_start, source_end)
          \<and> (distance_limit cfg \<le> 0 \<longrightarrow> source_start = 0 \<and> source_end = sci_get_length sci)
          \<and> (distance_limit cfg > 0 \<longrightarrow>
                source_start = max (pos - distance_limit cfg * 1024) 0
              \<and> source_end = min (pos + distance_limit cfg * 1024) (sci_get_length sci))
          \<and> (\<forall>(t, ms, k) \<in> set history. source_start \<le> ms \<and> ms < source_end)
          \<and> (distance_limit cfg > 0 \<longrightarrow>
                (\<forall>(t, ms, k) \<in> set history. \<bar>ms - pos\<bar> \<le> distance_limit cfg * 1024)
              \<and> (\<forall>c \<in> set built. dist c \<le> distance_limit cfg * 1024))
          \<and> (\<forall>sci'. same_answers_in_window sci sci' source_start source_end \<longrightarrow>
                find_candidates g_utf8_casefold sci' cfg prefix word pos []
                  = Some (built, history))))"
proof (intro conjI allI impI)
  show "if distance_limit cfg \<le> 0
    then search_window sci cfg pos = Some (0, sci_get_length sci)
    else if gint_range (distance_limit cfg * 1024)
            \<and> gint_range (pos - distance_limit cfg * 1024)
            \<and> gint_range (pos + distance_limit cfg * 1024)
    then search_window sci cfg pos
           = Some (max (pos - distance_limit cfg * 1024) 0,
                   min (pos + distance_limit cfg * 1024) (sci_get_length sci))
    else search_window sci cfg pos = None
       \<and> find_candidates g_utf8_casefold sci cfg prefix word pos [] = None"
    using search_window_None [of sci cfg pos g_utf8_casefold prefix word "[]"]
    by (simp add: search_window_def Let_def)
next
  assume "editor_progress sci \<and> search_window sci cfg pos \<noteq> None"
  then show "\<exists>built history.
      find_candidates g_utf8_casefold sci cfg prefix word pos [] = Some (built, history)"
    by (intro find_candidates_returns) simp_all
next
  fix built history
  assume run: "find_candidates g_utf8_casefold sci cfg prefix word pos [] = Some (built, history)"
  from find_candidates_parts [OF run] obtain collected where
    scan: "find_candidates_scan g_utf8_casefold sci cfg prefix word pos [] = Some (collected, history)"
    by blast
  from find_candidates_scan_window [OF scan] obtain source_start source_end where
    w: "search_window sci cfg pos = Some (source_start, source_end)"
    and inside: "\<forall>(t, ms, k) \<in> set history. source_start \<le> ms \<and> ms < source_end" by blast
  note cases = search_window_cases [OF w]
  have near: "\<forall>(t, ms, k) \<in> set history. \<bar>ms - pos\<bar> \<le> distance_limit cfg * 1024"
    if lim: "distance_limit cfg > 0"
  proof -
    from cases lim have "pos - distance_limit cfg * 1024 \<le> source_start"
      and "source_end \<le> pos + distance_limit cfg * 1024" by auto
    with inside show ?thesis by fastforce
  qed
  have cand: "\<forall>c \<in> set built. dist c \<le> distance_limit cfg * 1024"
    if lim: "distance_limit cfg > 0"
    using find_candidates_radius [OF run near [OF lim]] lim by simp
  have same: "\<forall>sci'. same_answers_in_window sci sci' source_start source_end \<longrightarrow>
      find_candidates g_utf8_casefold sci' cfg prefix word pos [] = Some (built, history)"
    using find_candidates_same_answers [OF run w] by blast
  show "\<exists>source_start source_end.
      search_window sci cfg pos = Some (source_start, source_end)
    \<and> (distance_limit cfg \<le> 0 \<longrightarrow> source_start = 0 \<and> source_end = sci_get_length sci)
    \<and> (distance_limit cfg > 0 \<longrightarrow>
          source_start = max (pos - distance_limit cfg * 1024) 0
        \<and> source_end = min (pos + distance_limit cfg * 1024) (sci_get_length sci))
    \<and> (\<forall>(t, ms, k) \<in> set history. source_start \<le> ms \<and> ms < source_end)
    \<and> (distance_limit cfg > 0 \<longrightarrow>
          (\<forall>(t, ms, k) \<in> set history. \<bar>ms - pos\<bar> \<le> distance_limit cfg * 1024)
        \<and> (\<forall>c \<in> set built. dist c \<le> distance_limit cfg * 1024))
    \<and> (\<forall>sci'. same_answers_in_window sci sci' source_start source_end \<longrightarrow>
          find_candidates g_utf8_casefold sci' cfg prefix word pos [] = Some (built, history))"
    using w cases inside near cand same by blast
qed

theorem find_candidates_window_witness:
  "0 < distance_limit near_config
   \<and> gint_range (distance_limit near_config * 1024)
   \<and> gint_range (1118 - distance_limit near_config * 1024)
   \<and> gint_range (1118 + distance_limit near_config * 1024)
   \<and> sci_get_length far_buffer = 1118
   \<and> search_window far_buffer near_config 1118 = Some (94, 1118)
   \<and> editor_progress far_buffer
   \<and> find_candidates ascii_casefold far_buffer near_config ''foo'' ''foo'' 1118 []
       = Some (far_list, far_history)
   \<and> list_all (\<lambda>(t, ms, k). 94 \<le> ms \<and> ms < 1118 \<and> \<bar>ms - 1118\<bar> \<le> 1024) far_history
   \<and> list_all (\<lambda>c. dist c \<le> 1024) far_list
   \<and> same_answers_in_window far_buffer far_masked 94 1118
   \<and> find_candidates ascii_casefold far_masked near_config ''foo'' ''foo'' 1118 []
       = Some (far_list, far_history)
   \<and> sci_find_text far_buffer 0 1118 ''foo'' = 0
   \<and> sci_get_contents_range far_buffer 0 6 = ''foofar''
   \<and> ''foofar'' \<notin> ctext ` set far_list
   \<and> distance_limit default_config = 0
   \<and> search_window far_buffer default_config 1118 = Some (0, 1118)
   \<and> find_candidates ascii_casefold far_buffer default_config ''foo'' ''foo'' 1118 []
       = Some (whole_list, whole_history)
   \<and> ''foofar'' \<in> ctext ` set whole_list"
proof -
  note inst = find_candidates_window [where cfg = near_config and sci = far_buffer
    and pos = 1118 and g_utf8_casefold = ascii_casefold and prefix = "''foo''" and word = "''foo''"]
  have lim: "0 < distance_limit near_config" "distance_limit near_config * 1024 = 1024"
    by (simp_all add: near_config_def)
  have range: "gint_range (distance_limit near_config * 1024)"
    "gint_range (1118 - distance_limit near_config * 1024)"
    "gint_range (1118 + distance_limit near_config * 1024)"
    by (simp_all add: lim gint_range_def)
  from inst [THEN conjunct1] lim(1) range
  have "search_window far_buffer near_config 1118
      = Some (max (1118 - distance_limit near_config * 1024) 0,
              min (1118 + distance_limit near_config * 1024) (sci_get_length far_buffer))"
    by simp
  then have w: "search_window far_buffer near_config 1118 = Some (94, 1118)"
    by (simp add: lim(2) far_length)
  have progress: "editor_progress far_buffer"
    unfolding far_buffer_def by (rule text_buffer_progress)
  from inst [THEN conjunct2, THEN conjunct1] progress w obtain built history where
    run: "find_candidates ascii_casefold far_buffer near_config ''foo'' ''foo'' 1118 []
      = Some (built, history)" by auto
  with far_list_built have bh: "built = far_list" "history = far_history" by simp_all
  from inst [THEN conjunct2, THEN conjunct2, THEN spec, THEN spec, THEN mp, OF run]
  obtain source_start source_end where
    w': "search_window far_buffer near_config 1118 = Some (source_start, source_end)"
    and inside: "\<forall>(t, ms, k) \<in> set history. source_start \<le> ms \<and> ms < source_end"
    and radius: "distance_limit near_config > 0 \<longrightarrow>
          (\<forall>(t, ms, k) \<in> set history. \<bar>ms - 1118\<bar> \<le> distance_limit near_config * 1024)
        \<and> (\<forall>c \<in> set built. dist c \<le> distance_limit near_config * 1024)"
    and same: "\<forall>sci'. same_answers_in_window far_buffer sci' source_start source_end \<longrightarrow>
      find_candidates ascii_casefold sci' near_config ''foo'' ''foo'' 1118 [] = Some (built, history)"
    by blast
  from w w' have bounds: "source_start = 94" "source_end = 1118" by simp_all
  from radius lim have
    near: "\<forall>(t, ms, k) \<in> set history. \<bar>ms - 1118\<bar> \<le> 1024"
    and cand: "\<forall>c \<in> set built. dist c \<le> 1024" by simp_all
  from same far_masked_same have masked:
    "find_candidates ascii_casefold far_masked near_config ''foo'' ''foo'' 1118 []
       = Some (far_list, far_history)" unfolding bounds bh by blast
  have cut: "''foofar'' \<notin> ctext ` set far_list" "''foofar'' \<in> ctext ` set whole_list"
    by (simp_all add: far_list_def whole_list_def)
  have zero: "distance_limit default_config = 0" by (simp add: default_config_def)
  have hist: "list_all (\<lambda>(t, ms, k). 94 \<le> ms \<and> ms < 1118 \<and> \<bar>ms - 1118\<bar> \<le> 1024) far_history"
    using inside near unfolding bounds bh list_all_iff by fast
  have cands: "list_all (\<lambda>c. dist c \<le> 1024) far_list"
    using cand unfolding bh list_all_iff .
  note run' = run [unfolded bh]
  show ?thesis
    by (intro conjI lim(1) range far_length w progress run' hist cands far_masked_same masked
          far_answers(11) far_answers(14) cut zero whole_window whole_list_built)
qed

end
